theory Spec2Isabelle
  imports Main "HOL-Library.Word" "HOL-Library.AList" "HOL-Library.Sublist"
begin

section \<open>JavaScript strings and the built-ins the modules call\<close>

text \<open>
  A JavaScript string is a sequence of UTF-16 code units. String literals of the source
  are written \<open>js ''...''\<close>; the three characters that a HOL literal cannot hold
  (apostrophe, double quote in some places, backslash) are given by their code unit.
\<close>

type_synonym code_unit = "16 word"
type_synonym jsstring = "code_unit list"

definition js :: "string \<Rightarrow> jsstring" where
  "js s = map of_char s"

datatype exn = URIError

text \<open>\<open>String.prototype.padStart(n, fill)\<close>.\<close>

definition padStart :: "nat \<Rightarrow> jsstring \<Rightarrow> jsstring \<Rightarrow> jsstring" where
  "padStart n fill s =
     (if n \<le> length s \<or> fill = [] then s
      else take (n - length s) (concat (replicate (n - length s) fill)) @ s)"

text \<open>\<open>Number.prototype.toString()\<close> and \<open>String(n)\<close> on a non-negative integer.\<close>

fun toString_nat :: "nat \<Rightarrow> jsstring" where
  "toString_nat n =
     (if n < 10 then [of_nat (48 + n)]
      else toString_nat (n div 10) @ [of_nat (48 + n mod 10)])"

declare toString_nat.simps [simp del]

text \<open>The regular expressions \<open>/^[a-zA-Z]$/\<close> and \<open>/^[0-9]$/\<close>.\<close>

definition isAsciiUpper :: "code_unit \<Rightarrow> bool" where
  "isAsciiUpper c \<longleftrightarrow> 0x41 \<le> c \<and> c \<le> 0x5A"

definition isAsciiLower :: "code_unit \<Rightarrow> bool" where
  "isAsciiLower c \<longleftrightarrow> 0x61 \<le> c \<and> c \<le> 0x7A"

definition isAsciiDigit :: "code_unit \<Rightarrow> bool" where
  "isAsciiDigit c \<longleftrightarrow> 0x30 \<le> c \<and> c \<le> 0x39"

fun isLetter :: "jsstring \<Rightarrow> bool" where
  "isLetter [c] = (isAsciiLower c \<or> isAsciiUpper c)"
| "isLetter _ = False"

fun isDigit :: "jsstring \<Rightarrow> bool" where
  "isDigit [c] = isAsciiDigit c"
| "isDigit _ = False"

text \<open>
  \<open>String.prototype.toUpperCase()\<close> on text of ASCII code units. Apart from the early
  exit of \<open>getLetterVariants\<close>, which takes the host's function as a parameter, the
  modules apply it only to a string that has passed \<open>/^[a-zA-Z]$/\<close>.
\<close>

definition toUpperCase :: "jsstring \<Rightarrow> jsstring" where
  "toUpperCase s = map (\<lambda>c. if isAsciiLower c then c - 0x20 else c) s"

text \<open>\<open>s.split('-')[0]\<close>: the text before the first hyphen.\<close>

definition splitHyphenFirst :: "jsstring \<Rightarrow> jsstring" where
  "splitHyphenFirst s = takeWhile (\<lambda>c. c \<noteq> 0x2D) s"

subsection \<open>encodeURIComponent\<close>

definition isLeadSurrogate :: "code_unit \<Rightarrow> bool" where
  "isLeadSurrogate c \<longleftrightarrow> 0xD800 \<le> c \<and> c \<le> 0xDBFF"

definition isTrailSurrogate :: "code_unit \<Rightarrow> bool" where
  "isTrailSurrogate c \<longleftrightarrow> 0xDC00 \<le> c \<and> c \<le> 0xDFFF"

text \<open>The unreserved set: letters, digits and the marks \<open>- _ . ! ~ * ' ( )\<close>.\<close>

definition uriUnescaped :: "code_unit \<Rightarrow> bool" where
  "uriUnescaped c \<longleftrightarrow>
     isAsciiLower c \<or> isAsciiUpper c \<or> isAsciiDigit c \<or> c \<in> set (js ''-_.!~*()'') \<or> c = 0x27"

definition utf8 :: "nat \<Rightarrow> nat list" where
  "utf8 cp =
     (if cp < 0x80 then [cp]
      else if cp < 0x800 then [0xC0 + cp div 64, 0x80 + cp mod 64]
      else if cp < 0x10000 then
        [0xE0 + cp div 4096, 0x80 + (cp div 64) mod 64, 0x80 + cp mod 64]
      else
        [0xF0 + cp div 262144, 0x80 + (cp div 4096) mod 64,
         0x80 + (cp div 64) mod 64, 0x80 + cp mod 64])"

definition hexDigit :: "nat \<Rightarrow> code_unit" where
  "hexDigit d = (if d < 10 then of_nat (48 + d) else of_nat (55 + d))"

definition percentOctet :: "nat \<Rightarrow> jsstring" where
  "percentOctet b = [0x25, hexDigit (b div 16), hexDigit (b mod 16)]"

definition percentEncode :: "nat \<Rightarrow> jsstring" where
  "percentEncode cp = concat (map percentOctet (utf8 cp))"

definition surrogatePair :: "code_unit \<Rightarrow> code_unit \<Rightarrow> nat" where
  "surrogatePair hi lo = 0x10000 + (unat hi - 0xD800) * 0x400 + (unat lo - 0xDC00)"

definition prepend :: "jsstring \<Rightarrow> exn + jsstring \<Rightarrow> exn + jsstring" where
  "prepend xs r = (case r of Inl e \<Rightarrow> Inl e | Inr ys \<Rightarrow> Inr (xs @ ys))"

text \<open>
  \<open>encodeURIComponent\<close> copies an unreserved code unit, writes every other code point as
  the percent-escaped octets of its UTF-8 form, and throws URIError at a surrogate code
  unit that has no partner.
\<close>

fun encodeURIComponent :: "jsstring \<Rightarrow> exn + jsstring" where
  "encodeURIComponent [] = Inr []"
| "encodeURIComponent [c] =
     (if uriUnescaped c then Inr [c]
      else if isLeadSurrogate c \<or> isTrailSurrogate c then Inl URIError
      else Inr (percentEncode (unat c)))"
| "encodeURIComponent (c # d # ds) =
     (if uriUnescaped c then prepend [c] (encodeURIComponent (d # ds))
      else if isLeadSurrogate c then
        (if isTrailSurrogate d
         then prepend (percentEncode (surrogatePair c d)) (encodeURIComponent ds)
         else Inl URIError)
      else if isTrailSurrogate c then Inl URIError
      else prepend (percentEncode (unat c)) (encodeURIComponent (d # ds)))"

text \<open>\<open>String.prototype.isWellFormed()\<close>: no surrogate code unit without its partner.\<close>

fun isWellFormed :: "jsstring \<Rightarrow> bool" where
  "isWellFormed [] = True"
| "isWellFormed [c] = (\<not> isLeadSurrogate c \<and> \<not> isTrailSurrogate c)"
| "isWellFormed (c # d # ds) =
     (if isLeadSurrogate c then isTrailSurrogate d \<and> isWellFormed ds
      else \<not> isTrailSurrogate c \<and> isWellFormed (d # ds))"

subsection \<open>Property lookup on an object literal\<close>

text \<open>
  \<open>table[key]\<close> on an object literal finds, besides the keys written in the literal, the
  properties that every object inherits from \<open>Object.prototype\<close>. Their values are
  built-in functions, except \<open>__proto__\<close>, whose value is \<open>Object.prototype\<close> itself; all
  are truthy and none has a property \<open>fill\<close>, \<open>background\<close> or \<open>stroke\<close>.
\<close>

definition objectPrototypeNames :: "jsstring list" where
  "objectPrototypeNames =
    [js ''constructor'', js ''__defineGetter__'', js ''__defineSetter__'', js ''hasOwnProperty'',
     js ''__lookupGetter__'', js ''__lookupSetter__'', js ''isPrototypeOf'',
     js ''propertyIsEnumerable'', js ''toString'', js ''valueOf'', js ''__proto__'',
     js ''toLocaleString'']"

text \<open>
  The text that a template literal makes of such an inherited value: the source text of a
  built-in function as V8 and JavaScriptCore print it (the value of \<open>constructor\<close> is the
  function \<open>Object\<close>), and \<open>[object Object]\<close> for \<open>Object.prototype\<close>.
\<close>

definition inheritedText :: "jsstring \<Rightarrow> jsstring" where
  "inheritedText name =
     (if name = js ''__proto__'' then js ''[object Object]''
      else js ''function '' @ (if name = js ''constructor'' then js ''Object'' else name)
             @ js ''() { [native code] }'')"

subsection \<open>Loops that stop at the first hit\<close>



section \<open>utils.js\<close>

definition getSystemFontFallbacks :: "jsstring \<Rightarrow> jsstring" where
  \<open>getSystemFontFallbacks style =
     (let baseStyle = (if splitHyphenFirst style = [] then style else splitHyphenFirst style)
      in if baseStyle = js ''sans'' then js ''Arial, Helvetica, sans-serif''
         else if baseStyle = js ''serif'' then js ''Georgia, "Times New Roman", serif''
         else if baseStyle = js ''mono'' then js ''"Courier New", Courier, monospace''
         else if baseStyle = js ''script'' then js ''"Comic Sans MS", cursive, sans-serif''
         else if baseStyle = js ''decorative'' then js ''"Impact", fantasy''
         else js ''sans-serif'')\<close>

record colors =
  fill :: jsstring
  background :: jsstring
  stroke :: jsstring

text \<open>The own keys of the object literal \<open>styleColorMap\<close>.\<close>

definition styleColorMap :: "(jsstring \<times> colors) list" where
  "styleColorMap =
    [(js ''sans'', \<lparr>fill = js ''#3a7ca5'', background = js ''#f0f8ff'', stroke = js ''#2a5a7a''\<rparr>),
     (js ''serif'', \<lparr>fill = js ''#d63030'', background = js ''#fff0f0'', stroke = js ''#a02020''\<rparr>),
     (js ''mono'', \<lparr>fill = js ''#2d882d'', background = js ''#f0fff0'', stroke = js ''#1d681d''\<rparr>),
     (js ''script'', \<lparr>fill = js ''#aa7c39'', background = js ''#fff8e6'', stroke = js ''#8a5c19''\<rparr>),
     (js ''decorative'', \<lparr>fill = js ''#9933cc'', background = js ''#f8f0ff'', stroke = js ''#7922aa''\<rparr>)]"

text \<open>The symbol class of the fallback generator:
  \<^verbatim>\<open>/^[!@#$%^&*()_+\-=\[\]{}|;':",./<>?]$/\<close>.\<close>

fun isSvgSymbol :: "jsstring \<Rightarrow> bool" where
  \<open>isSvgSymbol [c] = (c \<in> set (js ''!@#$%^&*()_+-=[]{}|;:",./<>?'') \<or> c = 0x27)\<close>
| \<open>isSvgSymbol _ = False\<close>

definition joinLines :: "jsstring list \<Rightarrow> jsstring" where
  "joinLines ls = concat (map (\<lambda>l. 0x0A # l) ls)"

text \<open>
  The template literal of \<open>generateFallbackLetterSVG\<close>, line by line; the literal opens
  with a line break, and so does every line here.
\<close>

definition svgTemplate ::
  "jsstring \<Rightarrow> jsstring \<Rightarrow> colors \<Rightarrow> jsstring \<Rightarrow> jsstring" where
  \<open>svgTemplate char font col filterId = joinLines
    [js ''    <svg xmlns="http://www.w3.org/2000/svg" width="40" height="60" viewBox="0 0 40 60" preserveAspectRatio="xMidYMid meet">'',
     js ''      <defs>'',
     js ''        <filter id="'' @ filterId @ js ''">'',
     js ''          <feDropShadow dx="1" dy="1" stdDeviation="1" flood-opacity="0.3"/>'',
     js ''        </filter>'',
     js ''      </defs>'',
     js ''      <rect width="40" height="60" fill="'' @ background col @ js ''" stroke="''
       @ stroke col @ js ''" stroke-width="1"/>'',
     js ''      <text '',
     js ''        x="20" '',
     js ''        y="35" '',
     js ''        font-family="'' @ font @ js ''" '',
     js ''        font-size="30" '',
     js ''        fill="'' @ fill col @ js ''" '',
     js ''        text-anchor="middle" '',
     js ''        dominant-baseline="middle"'',
     js ''        filter="url(#'' @ filterId @ js '')"'',
     js ''      >'' @ char @ js ''</text>'',
     js ''    </svg>'']\<close>

text \<open>
  The destructuring assignment \<open>({ fill, background, stroke } = styleColorMap[baseStyle])\<close>
  from an inherited value leaves the three variables \<open>undefined\<close>, which the template
  literal prints as the word.
\<close>

definition undefinedColors :: colors where
  "undefinedColors =
     \<lparr>fill = js ''undefined'', background = js ''undefined'', stroke = js ''undefined''\<rparr>"

text \<open>
  \<open>generateFallbackLetterSVG(char, style)\<close>. The argument \<open>rnd\<close> is the value of
  \<open>Math.floor(Math.random() * 10000)\<close> drawn by the call.
\<close>

definition generateFallbackLetterSVG :: "nat \<Rightarrow> jsstring \<Rightarrow> jsstring \<Rightarrow> exn + jsstring" where
  "generateFallbackLetterSVG rnd char style =
     (let font = getSystemFontFallbacks style;
          baseStyle = (if splitHyphenFirst style = [] then style else splitHyphenFirst style);
          col = \<lparr>fill = js ''#333'', background = js ''#f0f0f0'', stroke = js ''#ccc''\<rparr>;
          col = (case map_of styleColorMap baseStyle of
                   Some m \<Rightarrow> m
                 | None \<Rightarrow> if baseStyle \<in> set objectPrototypeNames then undefinedColors else col);
          col = (if isDigit char
                 then \<lparr>fill = js ''#6a5acd'', background = js ''#f5f0ff'', stroke = js ''#483d8b''\<rparr>
                 else if isSvgSymbol char
                 then \<lparr>fill = js ''#ff8c00'', background = js ''#fff8f0'', stroke = js ''#cc7000''\<rparr>
                 else col);
          filterId = js ''shadow_'' @ char @ js ''_'' @ toString_nat rnd;
          svg = svgTemplate char font col filterId
      in prepend (js ''data:image/svg+xml;charset=utf-8,'') (encodeURIComponent svg))"

text \<open>
  \<open>checkFileExists(path, timeout)\<close> settles with the first of three events on the image
  element. It never rejects. \<open>_loadWithFallbacks\<close> nevertheless awaits it inside
  \<open>try\<close>/\<open>catch\<close>, so the existence check is a parameter that may also reject.
\<close>

datatype image_event = Onload | Onerror | Timeout

datatype probe = Resolves bool | Rejects

definition checkFileExists :: "(jsstring \<Rightarrow> image_event) \<Rightarrow> jsstring \<Rightarrow> probe" where
  "checkFileExists net path =
     (case net path of Onload \<Rightarrow> Resolves True | Onerror \<Rightarrow> Resolves False
      | Timeout \<Rightarrow> Resolves False)"

section \<open>assetManager.js\<close>

record stats =
  requested :: nat
  loaded :: nat
  failed :: nat
  cached :: nat
  fallbacks :: nat

text \<open>
  The two \<open>Map\<close>s keep their entries in insertion order; \<open>loadingPromises\<close> holds the
  identity of the promise of a resolution that is under way.
\<close>

record asset_manager =
  cache :: "(jsstring \<times> jsstring) list"
  loadingPromises :: "(jsstring \<times> nat) list"
  stats :: stats

definition constructor :: asset_manager where
  "constructor =
     \<lparr>cache = [], loadingPromises = [],
      stats = \<lparr>requested = 0, loaded = 0, failed = 0, cached = 0, fallbacks = 0\<rparr>\<rparr>"

text \<open>The argument object of \<open>get\<close>; \<open>city\<close> and \<open>variant\<close> may be left out.\<close>

record asset_request =
  req_char :: jsstring
  req_style :: jsstring
  req_case :: jsstring
  req_city :: "jsstring option"
  req_variant :: "jsstring option"

text \<open>The destructured parameters \<open>{ char, style, case: charCase, city, variant }\<close>.\<close>

record params =
  char :: jsstring
  style :: jsstring
  charCase :: jsstring
  city :: jsstring
  variant :: jsstring

definition destructure :: "asset_request \<Rightarrow> params" where
  "destructure r =
     \<lparr>char = req_char r, style = req_style r, charCase = req_case r,
      city = (case req_city r of None \<Rightarrow> js ''NYC'' | Some c \<Rightarrow> c),
      variant = (case req_variant r of None \<Rightarrow> js ''01'' | Some v \<Rightarrow> v)\<rparr>"

definition symbolMap :: "(jsstring \<times> jsstring) list" where
  \<open>symbolMap =
    [(js ''!'', js ''exclamation''), (js ''?'', js ''question''), (js ''.'', js ''period''),
     (js '','', js ''comma''), (js '':'', js ''colon''), (js '';'', js ''semicolon''),
     (js ''"'', js ''quote''), ([0x27], js ''apostrophe''),
     (js ''('', js ''parenthesis-open''), (js '')'', js ''parenthesis-close''),
     (js ''['', js ''bracket-open''), (js '']'', js ''bracket-close''),
     (js ''{'', js ''brace-open''), (js ''}'', js ''brace-close''),
     (js ''<'', js ''angle-open''), (js ''>'', js ''angle-close''),
     (js ''+'', js ''plus''), (js ''-'', js ''minus''), (js ''*'', js ''asterisk''),
     (js ''/'', js ''slash''), ([0x5C], js ''backslash''), (js ''|'', js ''vertical-bar''),
     (js ''='', js ''equals''), (js ''@'', js ''at''), (js ''#'', js ''hash''),
     (js ''$'', js ''dollar''), (js ''%'', js ''percent''), (js ''^'', js ''caret''),
     (js ''&'', js ''ampersand''), (js ''_'', js ''underscore'')]\<close>

text \<open>
  \<open>symbolMap[symbol] || 'symbol'\<close>, as the text that the template literals of
  \<open>_buildFallbackPaths\<close> make of it: an own key gives its folder name, an inherited
  property name gives the text of the inherited value, anything else gives \<open>symbol\<close>.
\<close>

definition mapSymbolToFolderName :: "jsstring \<Rightarrow> jsstring" where
  "mapSymbolToFolderName symbol =
     (case map_of symbolMap symbol of
        Some name \<Rightarrow> name
      | None \<Rightarrow> if symbol \<in> set objectPrototypeNames then inheritedText symbol
                else js ''symbol'')"

text \<open>
  The loop \<open>for (let i = 1; i <= 5; i++)\<close> with its test
  \<open>i.toString().padStart(2, '0') !== paddedVariant\<close>: the variants it lets through.
\<close>

definition altVariants :: "jsstring \<Rightarrow> jsstring list" where
  "altVariants paddedVariant =
     filter (\<lambda>altVariant. altVariant \<noteq> paddedVariant)
       (map (\<lambda>i. padStart 2 (js ''0'') (toString_nat i)) [1 ..< 6])"

definition letterPath :: "params \<Rightarrow> jsstring \<Rightarrow> jsstring" where
  "letterPath p v =
     js ''assets/Alphabet/cities/'' @ city p @ js ''/Alphabet/'' @ toUpperCase (char p)
       @ js ''/'' @ (style p @ js ''-'' @ charCase p) @ js ''/'' @ v @ js ''.jpg''"

definition cityFallbackPath :: "params \<Rightarrow> jsstring \<Rightarrow> jsstring" where
  "cityFallbackPath p v =
     js ''assets/Alphabet/cities/'' @ city p @ js ''/fallback/''
       @ (style p @ js ''-'' @ charCase p) @ js ''/'' @ v @ js ''.jpg''"

definition numberPath :: "params \<Rightarrow> jsstring \<Rightarrow> jsstring" where
  "numberPath p v = js ''assets/Numbers/'' @ char p @ js ''/'' @ v @ js ''.jpg''"

definition symbolPath :: "params \<Rightarrow> jsstring \<Rightarrow> jsstring" where
  "symbolPath p v =
     js ''assets/Symbols/'' @ mapSymbolToFolderName (char p) @ js ''/'' @ v @ js ''.jpg''"

text \<open>\<open>_buildFallbackPaths\<close>: the list \<open>paths\<close> after its last \<open>push\<close>.\<close>

definition buildFallbackPaths :: "params \<Rightarrow> jsstring list" where
  "buildFallbackPaths p =
     (let paddedVariant = padStart 2 (js ''0'') (variant p)
      in (if isLetter (char p) then
            [letterPath p paddedVariant, cityFallbackPath p paddedVariant]
              @ map (letterPath p) (altVariants paddedVariant)
          else if isDigit (char p) then
            numberPath p paddedVariant # map (numberPath p) (altVariants paddedVariant)
          else
            symbolPath p paddedVariant # map (symbolPath p) (altVariants paddedVariant))
         @ [js ''assets/missing.png''])"

text \<open>
  The loop of \<open>_loadWithFallbacks\<close> over \<open>paths\<close>: the path it returns, if any, and the
  paths it handed to the existence check, in order. A check that resolves to false and
  one that rejects both move on to the next path.
\<close>

fun tryPaths :: "(jsstring \<Rightarrow> probe) \<Rightarrow> jsstring list \<Rightarrow> jsstring option \<times> jsstring list" where
  "tryPaths chk [] = (None, [])"
| "tryPaths chk (path # paths) =
     (case chk path of
        Resolves True \<Rightarrow> (Some path, [path])
      | _ \<Rightarrow> (case tryPaths chk paths of (found, probed) \<Rightarrow> (found, path # probed)))"

definition loadWithFallbacks ::
  "(jsstring \<Rightarrow> probe) \<Rightarrow> nat \<Rightarrow> params \<Rightarrow> asset_manager
     \<Rightarrow> (exn + jsstring) \<times> jsstring list \<times> asset_manager" where
  "loadWithFallbacks chk rnd p this =
     (case tryPaths chk (buildFallbackPaths p) of
        (Some path, probed) \<Rightarrow>
          (Inr path, probed, this\<lparr>stats := (stats this)\<lparr>loaded := loaded (stats this) + 1\<rparr>\<rparr>)
      | (None, probed) \<Rightarrow>
          (let this' = this\<lparr>stats := (stats this)\<lparr>fallbacks := fallbacks (stats this) + 1\<rparr>\<rparr>;
               fullStyle = (if charCase p \<noteq> [] then style p @ js ''-'' @ charCase p else style p)
           in (generateFallbackLetterSVG rnd (char p) fullStyle, probed, this')))"

definition cacheKey :: "params \<Rightarrow> jsstring" where
  "cacheKey p =
     char p @ js ''_'' @ style p @ js ''_'' @ charCase p @ js ''_'' @ city p @ js ''_'' @ variant p"

text \<open>
  How the promise returned by one call of \<open>get\<close> settles when the call runs to its end
  with nothing else in between: fulfilled with a URL, rejected, or, when the key has a
  resolution under way, settled as that earlier promise will be.
\<close>

datatype settled = Fulfilled jsstring | Rejected exn | Adopts nat

definition get ::
  "(jsstring \<Rightarrow> probe) \<Rightarrow> nat \<Rightarrow> asset_request \<Rightarrow> asset_manager
     \<Rightarrow> settled \<times> jsstring list \<times> asset_manager" where
  "get chk rnd r this0 =
     (let p = destructure r;
          this = this0\<lparr>stats := (stats this0)\<lparr>requested := requested (stats this0) + 1\<rparr>\<rparr>;
          key = cacheKey p
      in case map_of (cache this) key of
           Some url \<Rightarrow>
             (Fulfilled url, [], this\<lparr>stats := (stats this)\<lparr>cached := cached (stats this) + 1\<rparr>\<rparr>)
         | None \<Rightarrow>
             (case map_of (loadingPromises this) key of
                Some loading \<Rightarrow> (Adopts loading, [], this)
              | None \<Rightarrow>
                  (case loadWithFallbacks chk rnd p this of
                     (Inr url, probed, this') \<Rightarrow>
                       (Fulfilled url, probed,
                        this'\<lparr>cache := AList.update key url (cache this'),
                              loadingPromises := AList.delete key (loadingPromises this')\<rparr>)
                   | (Inl error, probed, this') \<Rightarrow>
                       (Rejected error, probed,
                        this'\<lparr>loadingPromises := AList.delete key (loadingPromises this')\<rparr>))))"

record stats_snapshot = stats +
  cacheSize :: nat
  pendingLoads :: nat

definition getStats :: "asset_manager \<Rightarrow> stats_snapshot" where
  "getStats this =
     stats.extend (stats this)
       \<lparr>cacheSize = length (cache this), pendingLoads = length (loadingPromises this)\<rparr>"

definition clearCache :: "asset_manager \<Rightarrow> asset_manager" where
  "clearCache this = this\<lparr>cache := [], loadingPromises := []\<rparr>"

text \<open>
  The variant of a request of the data model: after padding, one of \<open>01\<close> ... \<open>05\<close>.
\<close>

definition validVariant :: "jsstring \<Rightarrow> bool" where
  "validVariant v \<longleftrightarrow>
     padStart 2 (js ''0'') v \<in> set [js ''01'', js ''02'', js ''03'', js ''04'', js ''05'']"

text \<open>The request \<open>{char:'A', style:'sans', case:'upper', city:'NYC', variant:'01'}\<close>.\<close>

definition requestA :: asset_request where
  "requestA = \<lparr>req_char = js ''A'', req_style = js ''sans'', req_case = js ''upper'',
      req_city = Some (js ''NYC''), req_variant = Some (js ''01'')\<rparr>"

text \<open>Networks for the examples: no file answers, one file answers, every file answers.\<close>

definition nothingExists :: "jsstring \<Rightarrow> image_event" where
  "nothingExists path = Onerror"


definition everythingExists :: "jsstring \<Rightarrow> image_event" where
  "everythingExists path = Onload"

text \<open>A request whose character is the single code unit U+D800.\<close>

definition requestLoneSurrogate :: asset_request where
  "requestLoneSurrogate = \<lparr>req_char = [0xD800], req_style = js ''sans'', req_case = js ''upper'',
      req_city = Some (js ''NYC''), req_variant = Some (js ''01'')\<rparr>"




text \<open>A run of the manager: calls of \<open>get\<close>, each awaited to its end, and of \<open>clearCache\<close>.\<close>

datatype invocation = Get "jsstring \<Rightarrow> probe" nat asset_request | ClearCache

fun perform :: "invocation \<Rightarrow> asset_manager \<Rightarrow> asset_manager" where
  "perform (Get chk rnd r) this = snd (snd (get chk rnd r this))"
| "perform ClearCache this = clearCache this"

definition performAll :: "invocation list \<Rightarrow> asset_manager \<Rightarrow> asset_manager" where
  "performAll calls this = fold perform calls this"


section \<open>Calls of get that overlap\<close>

text \<open>
  JavaScript runs one piece of code at a time and an \<open>async\<close> function gives way only
  at \<open>await\<close>. A call of \<open>get\<close> therefore runs without interruption up to the first
  \<open>await checkFileExists(...)\<close> inside \<open>_loadWithFallbacks\<close>, and each later piece runs
  when the awaited check settles: from there to the next \<open>await\<close>, or to the end of
  \<open>_loadWithFallbacks\<close> and, in the same turn of the job queue, through the rest of \<open>get\<close>
  (\<open>cache.set\<close>, \<open>loadingPromises.delete\<close>).

  A task is an activation of \<open>_loadWithFallbacks\<close> suspended at its \<open>await\<close>: the key and
  parameters of the call that started it, the path whose check it awaits, and the paths
  the loop has still to visit.
\<close>

record task =
  t_key :: jsstring
  t_params :: params
  t_waiting :: jsstring
  t_rest :: "jsstring list"

text \<open>
  The world: the manager, the suspended activations by the identity of their promise, the
  promises that have settled, the existence checks invoked so far (with the promise on
  whose behalf), and the next unused promise identity.
\<close>

record world =
  manager :: asset_manager
  running :: "(nat \<times> task) list"
  settled :: "(nat \<times> (exn + jsstring)) list"
  probes :: "(nat \<times> jsstring) list"
  fresh :: nat

definition world0 :: world where
  "world0 = \<lparr>manager = constructor, running = [], settled = [], probes = [], fresh = 0\<rparr>"

text \<open>
  What a caller of \<open>get\<close> holds: a value at once (a cache hit), or a promise that settles
  as the promise of the named activation does.
\<close>

datatype handle = Now jsstring | Later nat

text \<open>
  The end of \<open>_loadWithFallbacks\<close> and the statements of \<open>get\<close> after \<open>await loadPromise\<close>.
\<close>

definition finish :: "nat \<Rightarrow> task \<Rightarrow> exn + jsstring \<Rightarrow> world \<Rightarrow> world" where
  "finish pid t res w =
     (let this = manager w;
          this' = (case res of
                     Inr url \<Rightarrow>
                       this\<lparr>cache := AList.update (t_key t) url (cache this),
                            loadingPromises := AList.delete (t_key t) (loadingPromises this)\<rparr>
                   | Inl error \<Rightarrow>
                       this\<lparr>loadingPromises := AList.delete (t_key t) (loadingPromises this)\<rparr>)
      in w\<lparr>manager := this', running := AList.delete pid (running w),
           settled := settled w @ [(pid, res)]\<rparr>)"

text \<open>
  The loop of \<open>_loadWithFallbacks\<close> arriving at the rest of \<open>paths\<close>: it invokes the check
  of the next path and suspends, or, the list exhausted, generates the fallback.
\<close>

definition loadStep :: "nat \<Rightarrow> nat \<Rightarrow> task \<Rightarrow> jsstring list \<Rightarrow> world \<Rightarrow> world" where
  "loadStep rnd pid t paths w =
     (case paths of
        [] \<Rightarrow>
          (let this = manager w;
               p = t_params t;
               w' = w\<lparr>manager := this\<lparr>stats := (stats this)\<lparr>fallbacks := fallbacks (stats this) + 1\<rparr>\<rparr>\<rparr>;
               fullStyle = (if charCase p \<noteq> [] then style p @ js ''-'' @ charCase p else style p)
           in finish pid t (generateFallbackLetterSVG rnd (char p) fullStyle) w')
      | path # rest \<Rightarrow>
          w\<lparr>running := AList.update pid (t\<lparr>t_waiting := path, t_rest := rest\<rparr>) (running w),
            probes := probes w @ [(pid, path)]\<rparr>)"

text \<open>
  A call of \<open>get\<close> up to its first suspension. \<open>rnd\<close> is the random number the fallback
  generator would draw.
\<close>

definition call :: "nat \<Rightarrow> asset_request \<Rightarrow> world \<Rightarrow> handle \<times> world" where
  "call rnd r w0 =
     (let p = destructure r;
          this0 = manager w0;
          this = this0\<lparr>stats := (stats this0)\<lparr>requested := requested (stats this0) + 1\<rparr>\<rparr>;
          w = w0\<lparr>manager := this\<rparr>;
          key = cacheKey p
      in case map_of (cache this) key of
           Some url \<Rightarrow>
             (Now url, w\<lparr>manager := this\<lparr>stats := (stats this)\<lparr>cached := cached (stats this) + 1\<rparr>\<rparr>\<rparr>)
         | None \<Rightarrow>
             (case map_of (loadingPromises this) key of
                Some loading \<Rightarrow> (Later loading, w)
              | None \<Rightarrow>
                  (let pid = fresh w;
                       t = \<lparr>t_key = key, t_params = p, t_waiting = [], t_rest = []\<rparr>;
                       w' = w\<lparr>manager := this\<lparr>loadingPromises :=
                                  AList.update key pid (loadingPromises this)\<rparr>,
                             fresh := pid + 1\<rparr>
                   in (Later pid, loadStep rnd pid t (buildFallbackPaths p) w'))))"

text \<open>The awaited check of activation \<open>pid\<close> settles with \<open>outcome\<close>.\<close>

definition settle :: "nat \<Rightarrow> nat \<Rightarrow> probe \<Rightarrow> world \<Rightarrow> world" where
  "settle rnd pid outcome w =
     (case map_of (running w) pid of
        None \<Rightarrow> w
      | Some t \<Rightarrow>
          (case outcome of
             Resolves True \<Rightarrow>
               (let this = manager w
                in finish pid t (Inr (t_waiting t))
                     (w\<lparr>manager := this\<lparr>stats := (stats this)\<lparr>loaded := loaded (stats this) + 1\<rparr>\<rparr>\<rparr>))
           | _ \<Rightarrow> loadStep rnd pid t (t_rest t) w))"

datatype event = Call nat asset_request | Settle nat nat probe | Clear

fun step :: "event \<Rightarrow> world \<Rightarrow> world" where
  "step (Call rnd r) w = snd (call rnd r w)"
| "step (Settle rnd pid outcome) w = settle rnd pid outcome w"
| "step Clear w = w\<lparr>manager := clearCache (manager w)\<rparr>"

text \<open>
  One call of \<open>get\<close> run alone to its end: the activation \<open>pid\<close> is resumed with the
  outcome of the check it waits for until it has settled, at most \<open>n\<close> times.
\<close>

fun drive :: "(jsstring \<Rightarrow> probe) \<Rightarrow> nat \<Rightarrow> nat \<Rightarrow> nat \<Rightarrow> world \<Rightarrow> world" where
  "drive chk rnd pid 0 w = w"
| "drive chk rnd pid (Suc n) w =
     (case map_of (running w) pid of
        None \<Rightarrow> w
      | Some t \<Rightarrow> drive chk rnd pid n (settle rnd pid (chk (t_waiting t)) w))"

text \<open>
  What \<open>_loadWithFallbacks\<close> returns and what it counts, from the first candidate that
  exists; what \<open>get\<close> does to the two maps once the resolution has settled; and the
  state of the promise \<open>get\<close> returns.
\<close>

definition loadResult :: "nat \<Rightarrow> params \<Rightarrow> jsstring option \<Rightarrow> exn + jsstring" where
  "loadResult rnd p found =
     (case found of
        Some path \<Rightarrow> Inr path
      | None \<Rightarrow> generateFallbackLetterSVG rnd (char p)
          (if charCase p \<noteq> [] then style p @ js ''-'' @ charCase p else style p))"

definition loadStats :: "jsstring option \<Rightarrow> asset_manager \<Rightarrow> asset_manager" where
  "loadStats found this =
     (case found of
        Some path \<Rightarrow> this\<lparr>stats := (stats this)\<lparr>loaded := loaded (stats this) + 1\<rparr>\<rparr>
      | None \<Rightarrow> this\<lparr>stats := (stats this)\<lparr>fallbacks := fallbacks (stats this) + 1\<rparr>\<rparr>)"

definition afterLoad :: "jsstring \<Rightarrow> exn + jsstring \<Rightarrow> asset_manager \<Rightarrow> asset_manager" where
  "afterLoad key res this =
     (case res of
        Inr url \<Rightarrow> this\<lparr>cache := AList.update key url (cache this),
                        loadingPromises := AList.delete key (loadingPromises this)\<rparr>
      | Inl e \<Rightarrow> this\<lparr>loadingPromises := AList.delete key (loadingPromises this)\<rparr>)"

definition settledAs :: "exn + jsstring \<Rightarrow> settled" where
  "settledAs res = (case res of Inr url \<Rightarrow> Fulfilled url | Inl e \<Rightarrow> Rejected e)"

text \<open>A run in which \<open>clearCache\<close> is called only while no resolution is under way.\<close>

fun quietClears :: "event list \<Rightarrow> world \<Rightarrow> bool" where
  "quietClears [] w = True"
| "quietClears (e # es) w = ((e = Clear \<longrightarrow> running w = []) \<and> quietClears es (step e w))"

text \<open>The checks invoked on behalf of one promise, in order.\<close>

definition probesOf :: "nat \<Rightarrow> world \<Rightarrow> jsstring list" where
  "probesOf pid w = map snd (filter (\<lambda>(pid', path). pid' = pid) (probes w))"

text \<open>
  The invariant of such runs: the in-flight map and the suspended activations name each
  other, no key under resolution is cached, and each activation has probed, once each, an
  initial part of its candidate list and waits for the last of them.
\<close>

definition coalesced :: "world \<Rightarrow> bool" where
  "coalesced w \<longleftrightarrow>
     (\<forall>k pid. map_of (loadingPromises (manager w)) k = Some pid \<longrightarrow>
        (\<exists>t. map_of (running w) pid = Some t \<and> t_key t = k))
   \<and> (\<forall>pid t. map_of (running w) pid = Some t \<longrightarrow>
        map_of (loadingPromises (manager w)) (t_key t) = Some pid
      \<and> map_of (cache (manager w)) (t_key t) = None
      \<and> pid < fresh w
      \<and> probesOf pid w @ t_rest t = buildFallbackPaths (t_params t)
      \<and> probesOf pid w \<noteq> [] \<and> t_waiting t = last (probesOf pid w))
   \<and> (\<forall>pid path. (pid, path) \<in> set (probes w) \<longrightarrow> pid < fresh w)
   \<and> distinct (probes w)"



text \<open>
  The invariant of runs of such events, with or without calls of \<open>clearCache\<close>: every
  entry of the in-flight map names a suspended activation with that key, the character
  of every suspended activation is well-formed, and every promise settled so far was
  fulfilled.
\<close>

definition linked :: "world \<Rightarrow> bool" where
  "linked w \<longleftrightarrow>
     (\<forall>k pid. map_of (loadingPromises (manager w)) k = Some pid \<longrightarrow>
        (\<exists>t. map_of (running w) pid = Some t \<and> t_key t = k))
   \<and> (\<forall>pid t. map_of (running w) pid = Some t \<longrightarrow>
        pid < fresh w \<and> isWellFormed (char (t_params t)))
   \<and> (\<forall>pid res. (pid, res) \<in> set (settled w) \<longrightarrow> (\<exists>url. res = Inr url))"

section \<open>database.js\<close>






text \<open>
  The fields of \<open>LetterDatabase\<close> that path resolution reads and writes.
  \<open>pathExistsCache\<close> is an object used as a table from paths to booleans; its property
  \<open>checked\<close> lives in the same table. \<open>letterCache\<close> and \<open>loadingPromises\<close> serve
  \<open>loadImage\<close> only.
\<close>

record letter_database =
  pathExistsCache :: "(jsstring \<times> bool) list"
  assetsDetected :: bool
  decorativePathFormat :: "jsstring option"


text \<open>
  \<open>pathExists(path)\<close>: the answer, the paths it asked the network for, and the database
  afterwards. The answer of the network is the first event on the image element. The test
  \<open>path in this.pathExistsCache\<close> also finds the inherited property names, and the value
  returned for them is truthy.
\<close>

definition pathExists ::
  "(jsstring \<Rightarrow> image_event) \<Rightarrow> jsstring \<Rightarrow> letter_database
     \<Rightarrow> bool \<times> jsstring list \<times> letter_database" where
  "pathExists net path this =
     (case map_of (pathExistsCache this) path of
        Some result \<Rightarrow> (result, [], this)
      | None \<Rightarrow>
          if path \<in> set objectPrototypeNames then (True, [], this)
          else if map_of (pathExistsCache this) (js ''checked'') = Some True
                  \<and> \<not> assetsDetected this
          then (False, [], this)
          else (case net path of
                  Onload \<Rightarrow>
                    (True, [path],
                     this\<lparr>pathExistsCache := AList.update path True (pathExistsCache this)\<rparr>)
                | Onerror \<Rightarrow>
                    (False, [path],
                     this\<lparr>pathExistsCache := AList.update path False (pathExistsCache this)\<rparr>)
                | Timeout \<Rightarrow>
                    (False, [path],
                     this\<lparr>pathExistsCache := AList.update path False (pathExistsCache this)\<rparr>)))"

text \<open>
  The loop \<open>for (const path of paths) { if (await this.pathExists(path)) ... }\<close> that
  stops at the first path that exists.
\<close>

fun firstExisting ::
  "(jsstring \<Rightarrow> image_event) \<Rightarrow> jsstring list \<Rightarrow> letter_database
     \<Rightarrow> jsstring option \<times> jsstring list \<times> letter_database" where
  "firstExisting net [] this = (None, [], this)"
| "firstExisting net (path # paths) this =
     (case pathExists net path this of
        (exists, probed, this') \<Rightarrow>
          if exists then (Some path, probed, this')
          else (case firstExisting net paths this' of
                  (found, probed', this'') \<Rightarrow> (found, probed @ probed', this'')))"


























text \<open>No counter of \<open>b\<close> is below that of \<open>a\<close>, and \<open>failed\<close> is the same.\<close>

definition statsLe :: "stats \<Rightarrow> stats \<Rightarrow> bool" where
  "statsLe a b \<longleftrightarrow> requested a \<le> requested b \<and> loaded a \<le> loaded b \<and> failed a = failed b
     \<and> cached a \<le> cached b \<and> fallbacks a \<le> fallbacks b"

section \<open>Properties of the candidate list\<close>

lemma variantNames:
  "map (\<lambda>i. padStart 2 (js ''0'') (toString_nat i)) [1 ..< 6]
     = [js ''01'', js ''02'', js ''03'', js ''04'', js ''05'']"
  by (simp add: upt_rec padStart_def toString_nat.simps js_def)

lemma length_altVariants:
  "length (altVariants pv)
     = (if pv \<in> set [js ''01'', js ''02'', js ''03'', js ''04'', js ''05''] then 4 else 5)"
  unfolding altVariants_def variantNames by (auto simp: js_def)

lemma tryPaths_prefix:
  "tryPaths chk ps = (found, probed) \<Longrightarrow> prefix probed ps"
proof (induction ps arbitrary: found probed)
  case Nil
  then show ?case by simp
next
  case (Cons a ps)
  then show ?case by (auto split: probe.splits bool.splits prod.splits)
qed

lemma tryPaths_failed:
  "tryPaths chk ps = (found, probed) \<Longrightarrow> \<forall>q \<in> set (butlast probed). chk q \<noteq> Resolves True"
proof (induction ps arbitrary: found probed)
  case Nil
  then show ?case by simp
next
  case (Cons a ps)
  then show ?case by (auto split: probe.splits bool.splits prod.splits if_splits)
qed

lemma tryPaths_all_fail:
  "\<forall>q \<in> set ps. chk q \<noteq> Resolves True \<Longrightarrow> tryPaths chk ps = (None, ps)"
  by (induction ps) (auto split: probe.splits bool.splits)

lemma tryPaths_None:
  "tryPaths chk ps = (None, probed) \<Longrightarrow> probed = ps \<and> (\<forall>q \<in> set ps. chk q \<noteq> Resolves True)"
proof (induction ps arbitrary: probed)
  case Nil
  then show ?case by auto
next
  case (Cons a ps)
  then show ?case by (auto split: probe.splits bool.splits prod.splits if_splits)
qed

lemma tryPaths_Some:
  "tryPaths chk ps = (Some x, probed) \<Longrightarrow> probed \<noteq> [] \<and> last probed = x \<and> chk x = Resolves True"
proof (induction ps arbitrary: probed)
  case Nil
  then show ?case by auto
next
  case (Cons a ps)
  then show ?case by (auto split: probe.splits bool.splits prod.splits if_splits)
qed

lemma missing_not_earlier:
  "js ''assets/missing.png'' \<notin> set (butlast (buildFallbackPaths p))"
  by (auto simp: buildFallbackPaths_def Let_def letterPath_def cityFallbackPath_def
        numberPath_def symbolPath_def js_def)

lemma pathsA:
  "buildFallbackPaths (destructure requestA) =
   [js ''assets/Alphabet/cities/NYC/Alphabet/A/sans-upper/01.jpg'',
    js ''assets/Alphabet/cities/NYC/fallback/sans-upper/01.jpg'',
    js ''assets/Alphabet/cities/NYC/Alphabet/A/sans-upper/02.jpg'',
    js ''assets/Alphabet/cities/NYC/Alphabet/A/sans-upper/03.jpg'',
    js ''assets/Alphabet/cities/NYC/Alphabet/A/sans-upper/04.jpg'',
    js ''assets/Alphabet/cities/NYC/Alphabet/A/sans-upper/05.jpg'',
    js ''assets/missing.png'']"
  unfolding buildFallbackPaths_def altVariants_def variantNames
  by (simp add: requestA_def destructure_def Let_def letterPath_def cityFallbackPath_def
       padStart_def toUpperCase_def isAsciiLower_def isAsciiUpper_def js_def)

lemma loadA_missing:
  "loadWithFallbacks (\<lambda>q. Resolves (q = js ''assets/missing.png'')) 0
      (destructure requestA) constructor
     = (Inr (js ''assets/missing.png''), buildFallbackPaths (destructure requestA),
        constructor\<lparr>stats := (stats constructor)\<lparr>loaded := 1\<rparr>\<rparr>)"
  unfolding loadWithFallbacks_def pathsA
  by (simp add: js_def constructor_def)

text \<open>
  C6. Whatever the request, the list built by \<open>_buildFallbackPaths\<close> is not empty and ends
  in \<open>assets/missing.png\<close>. \<open>_loadWithFallbacks\<close> hands the existence check a prefix of
  that list, so when the global fallback is probed, every candidate before it has been
  probed and none was reported to exist.
\<close>

theorem candidates_end_in_global_fallback:
  assumes "loadWithFallbacks chk rnd p this = (res, probed, this')"
  shows "buildFallbackPaths p \<noteq> []
       \<and> last (buildFallbackPaths p) = js ''assets/missing.png''
       \<and> prefix probed (buildFallbackPaths p)
       \<and> (js ''assets/missing.png'' \<in> set probed \<longrightarrow>
            probed = buildFallbackPaths p
            \<and> (\<forall>q \<in> set (butlast (buildFallbackPaths p)). chk q \<noteq> Resolves True))"
proof -
  let ?ps = "buildFallbackPaths p"
  have ne: "?ps \<noteq> []" and la: "last ?ps = js ''assets/missing.png''"
    by (simp_all add: buildFallbackPaths_def Let_def)
  obtain found where tp: "tryPaths chk ?ps = (found, probed)"
    using assms by (auto simp: loadWithFallbacks_def Let_def split: prod.splits option.splits)
  have pre: "prefix probed ?ps" using tp by (rule tryPaths_prefix)
  have "probed = ?ps \<and> (\<forall>q \<in> set (butlast ?ps). chk q \<noteq> Resolves True)"
    if m: "js ''assets/missing.png'' \<in> set probed"
  proof -
    from pre obtain rest where ps: "?ps = probed @ rest" by (auto simp: prefix_def)
    have "rest = []"
    proof (rule ccontr)
      assume "rest \<noteq> []"
      then have "butlast ?ps = probed @ butlast rest" using ps by (simp add: butlast_append)
      then have "js ''assets/missing.png'' \<in> set (butlast ?ps)" using m by simp
      then show False using missing_not_earlier by blast
    qed
    then have eq: "probed = ?ps" using ps by simp
    then show ?thesis using tryPaths_failed [OF tp] by simp
  qed
  then show ?thesis using ne la pre by blast
qed

theorem candidates_end_in_global_fallback_witness:
  "loadWithFallbacks (\<lambda>q. Resolves (q = js ''assets/missing.png'')) 0
      (destructure requestA) constructor
     = (Inr (js ''assets/missing.png''), buildFallbackPaths (destructure requestA),
        constructor\<lparr>stats := (stats constructor)\<lparr>loaded := 1\<rparr>\<rparr>)
   \<and> js ''assets/missing.png'' \<in> set (buildFallbackPaths (destructure requestA))
   \<and> list_all (\<lambda>q. Resolves (q = js ''assets/missing.png'') \<noteq> Resolves True)
         (butlast (buildFallbackPaths (destructure requestA)))"
proof -
  have h: "loadWithFallbacks (\<lambda>q. Resolves (q = js ''assets/missing.png'')) 0
      (destructure requestA) constructor
     = (Inr (js ''assets/missing.png''), buildFallbackPaths (destructure requestA),
        constructor\<lparr>stats := (stats constructor)\<lparr>loaded := 1\<rparr>\<rparr>)"
    by (rule loadA_missing)
  have m: "js ''assets/missing.png'' \<in> set (buildFallbackPaths (destructure requestA))"
    by (simp add: pathsA)
  show ?thesis using h m candidates_end_in_global_fallback [OF h] by (simp add: list_all_iff)
qed

text \<open>
  C7. For a variant of the data model, the list without its last element (the global
  fallback) has six entries for a letter and five for a digit or a symbol.
\<close>

theorem candidate_count_before_global_fallback:
  assumes "validVariant (variant p)"
  shows "length (butlast (buildFallbackPaths p)) = (if isLetter (char p) then 6 else 5)"
  using assms unfolding validVariant_def
  by (simp add: buildFallbackPaths_def Let_def length_altVariants)

theorem candidate_count_before_global_fallback_witness:
  "validVariant (variant (destructure requestA))
   \<and> length (butlast (buildFallbackPaths (destructure requestA))) = 6"
proof -
  have v: "validVariant (variant (destructure requestA))"
    by (simp add: validVariant_def requestA_def destructure_def padStart_def js_def)
  have l: "isLetter (char (destructure requestA))"
    by (simp add: requestA_def destructure_def js_def isAsciiUpper_def)
  show ?thesis using v l candidate_count_before_global_fallback [OF v] by simp
qed

section \<open>Properties of the fallback generator and of get\<close>

lemma unescaped_not_surrogate:
  "uriUnescaped c \<Longrightarrow> \<not> isLeadSurrogate c \<and> \<not> isTrailSurrogate c"
  by (auto simp: uriUnescaped_def isLeadSurrogate_def isTrailSurrogate_def isAsciiLower_def
        isAsciiUpper_def isAsciiDigit_def js_def word_le_nat_alt)

lemma lead_not_trail: "isLeadSurrogate c \<Longrightarrow> \<not> isTrailSurrogate c"
  by (auto simp: isLeadSurrogate_def isTrailSurrogate_def word_le_nat_alt)

lemma prepend_simps [simp]:
  "prepend xs (Inl e) = Inl e" "prepend xs (Inr ys) = Inr (xs @ ys)"
  by (simp_all add: prepend_def)

lemma prepend_prepend: "prepend xs (prepend ys r) = prepend (xs @ ys) r"
  by (cases r) simp_all

lemma prepend_Nil [simp]: "prepend [] r = r"
  by (cases r) simp_all

lemma encode_Cons_plain:
  "\<not> isLeadSurrogate c \<Longrightarrow> \<not> isTrailSurrogate c \<Longrightarrow>
   encodeURIComponent (c # cs) =
     prepend (if uriUnescaped c then [c] else percentEncode (unat c)) (encodeURIComponent cs)"
  by (cases cs) auto

lemma wf_Cons_plain:
  "\<not> isLeadSurrogate c \<Longrightarrow> \<not> isTrailSurrogate c \<Longrightarrow> isWellFormed (c # cs) = isWellFormed cs"
  by (cases cs) auto

lemma encode_append:
  "isWellFormed a \<Longrightarrow>
   encodeURIComponent (a @ b) =
     (case encodeURIComponent a of Inl e \<Rightarrow> Inl e | Inr x \<Rightarrow> prepend x (encodeURIComponent b))"
proof (induction a rule: isWellFormed.induct)
  case 1
  then show ?case by simp
next
  case (2 c)
  then show ?case by (simp add: encode_Cons_plain)
next
  case (3 c d ds)
  show ?case
  proof (cases "isLeadSurrogate c")
    case True
    with 3 have t: "isTrailSurrogate d" and w: "isWellFormed ds" by auto
    have nu: "\<not> uriUnescaped c" using True unescaped_not_surrogate by blast
    from 3(1)[OF True w] show ?thesis using True t nu
      by (auto simp: prepend_prepend split: sum.splits)
  next
    case False
    with 3 have nt: "\<not> isTrailSurrogate c" and w: "isWellFormed (d # ds)" by auto
    let ?X = "if uriUnescaped c then [c] else percentEncode (unat c)"
    have e1: "encodeURIComponent (c # d # ds @ b) = prepend ?X (encodeURIComponent (d # ds @ b))"
      using encode_Cons_plain [OF False nt] .
    have e2: "encodeURIComponent (c # d # ds) = prepend ?X (encodeURIComponent (d # ds))"
      using encode_Cons_plain [OF False nt] .
    have ih: "encodeURIComponent (d # ds @ b) =
       (case encodeURIComponent (d # ds) of Inl e \<Rightarrow> Inl e
        | Inr x \<Rightarrow> prepend x (encodeURIComponent b))"
      using 3(2)[OF False w] by simp
    show ?thesis
      unfolding append_Cons e1 e2 ih
      by (cases "encodeURIComponent (d # ds)") (simp_all add: prepend_prepend)
  qed
qed

lemma encode_wf:
  "isWellFormed a \<Longrightarrow> \<exists>x. encodeURIComponent a = Inr x"
proof (induction a rule: isWellFormed.induct)
  case 1 then show ?case by simp
next
  case (2 c) then show ?case by simp
next
  case (3 c d ds)
  then show ?case 
    by (cases "isLeadSurrogate c") (auto simp: lead_not_trail dest: unescaped_not_surrogate)
qed

lemma wf_append: "isWellFormed a \<Longrightarrow> isWellFormed b \<Longrightarrow> isWellFormed (a @ b)"
proof (induction a rule: isWellFormed.induct)
  case 1 then show ?case by simp
next
  case (2 c) then show ?case by (simp add: wf_Cons_plain)
next
  case (3 c d ds)
  then show ?case by (cases "isLeadSurrogate c") auto
qed

lemma wf_plain: "\<forall>c \<in> set s. \<not> isLeadSurrogate c \<and> \<not> isTrailSurrogate c \<Longrightarrow> isWellFormed s"
  by (induction s) (auto simp: wf_Cons_plain)

lemma of_char_small: "(of_char c :: 16 word) \<le> 0xFF"
proof -
  have n: "of_char c < (256::nat)" by simp
  then have n': "of_char c < (65536::nat)" by linarith
  have "unat (of_nat (of_char c) :: 16 word) = of_char c"
    using n' by (simp add: unat_of_nat del: of_nat_of_char)
  then have "unat (of_char c :: 16 word) = of_char c"
    by (simp only: of_nat_of_char)
  moreover have "of_char c \<le> (255::nat)" using n by linarith
  ultimately have "unat (of_char c :: 16 word) \<le> unat (0xFF :: 16 word)" by simp
  then show ?thesis by (simp only: word_le_nat_alt)
qed

lemma wf_js [simp]: "isWellFormed (js s)"
proof (rule wf_plain, clarify)
  fix c assume "c \<in> set (js s)"
  then obtain ch where "c = of_char ch" by (auto simp: js_def)
  then have "c \<le> 0xFF" using of_char_small by simp
  then show "\<not> isLeadSurrogate c \<and> \<not> isTrailSurrogate c"
    by (auto simp: isLeadSurrogate_def isTrailSurrogate_def word_le_nat_alt)
qed

lemma encode_not_wf:
  "\<not> isWellFormed a \<Longrightarrow> b = [] \<or> \<not> isTrailSurrogate (hd b) \<Longrightarrow>
   encodeURIComponent (a @ b) = Inl URIError"
proof (induction a rule: isWellFormed.induct)
  case 1
  then show ?case by simp
next
  case (2 c)
  then show ?case
    by (cases b) (auto dest: unescaped_not_surrogate)
next
  case (3 c d ds)
  show ?case
  proof (cases "isLeadSurrogate c")
    case True
    then have nu: "\<not> uriUnescaped c" using unescaped_not_surrogate by blast
    show ?thesis
    proof (cases "isTrailSurrogate d")
      case t: True
      with 3(3) True have "\<not> isWellFormed ds" by simp
      then have "encodeURIComponent (ds @ b) = Inl URIError"
        using 3(1)[OF True] 3(4) by simp
      then show ?thesis using True t nu by simp
    next
      case False
      then show ?thesis using True nu by simp
    qed
  next
    case False
    show ?thesis
    proof (cases "isTrailSurrogate c")
      case True
      then have nu: "\<not> uriUnescaped c" using unescaped_not_surrogate by blast
      then show ?thesis using True False by simp
    next
      case nt: False
      with 3(3) False have "\<not> isWellFormed (d # ds)" by simp
      then have "encodeURIComponent ((d # ds) @ b) = Inl URIError"
        using 3(2)[OF False] 3(4) by simp
      then show ?thesis using encode_Cons_plain [OF False nt, of "(d # ds) @ b"] by simp
    qed
  qed
qed

lemma digit_unit: "n < 10 \<Longrightarrow> unat (of_nat (48 + n) :: 16 word) = 48 + n"
proof -
  assume "n < 10"
  have "unat (of_nat (48 + n) :: 16 word) = (48 + n) mod 2 ^ LENGTH(16)"
    by (rule unat_of_nat)
  then show ?thesis using \<open>n < 10\<close> by simp
qed

lemma toString_nat_plain:
  "\<forall>c \<in> set (toString_nat n). \<not> isLeadSurrogate c \<and> \<not> isTrailSurrogate c"
proof (induction n rule: toString_nat.induct)
  case (1 n)
  have d: "\<not> isLeadSurrogate (of_nat (48 + m)) \<and> \<not> isTrailSurrogate (of_nat (48 + m))"
    if "m < 10" for m
    using digit_unit [OF that] that
    by (auto simp: isLeadSurrogate_def isTrailSurrogate_def word_le_nat_alt)
  show ?case
  proof (cases "n < 10")
    case True
    then show ?thesis using d [of n] by (subst toString_nat.simps) simp
  next
    case False
    have "n mod 10 < 10" by simp
    then show ?thesis using 1 False d [of "n mod 10"]
      by (subst toString_nat.simps) auto
  qed
qed

lemma wf_toString_nat [simp]: "isWellFormed (toString_nat n)"
  by (rule wf_plain) (rule toString_nat_plain)

lemma wf_newline: "isWellFormed (0x0A # l) = isWellFormed l"
  by (rule wf_Cons_plain) (simp_all add: isLeadSurrogate_def isTrailSurrogate_def)

lemma wf_joinLines: "\<forall>l \<in> set ls. isWellFormed l \<Longrightarrow> isWellFormed (joinLines ls)"
  by (induction ls) (simp_all add: joinLines_def wf_newline wf_append)

lemma joinLines_append: "joinLines (xs @ ys) = joinLines xs @ joinLines ys"
  by (simp add: joinLines_def)

lemma wf_font [simp]: "isWellFormed (getSystemFontFallbacks sty)"
  by (simp add: getSystemFontFallbacks_def Let_def)

lemma wf_styleColor:
  "map_of styleColorMap k = Some m \<Longrightarrow>
   isWellFormed (fill m) \<and> isWellFormed (background m) \<and> isWellFormed (stroke m)"
  by (auto simp: styleColorMap_def split: if_splits)

text \<open>The SVG text splits at each occurrence of the character.\<close>

lemma svgTemplate_split:
  assumes "isWellFormed fnt" "isWellFormed (fill col)" "isWellFormed (background col)"
    "isWellFormed (stroke col)"
  shows "\<exists>A B C. svgTemplate ch fnt col (js ''shadow_'' @ ch @ js ''_'' @ toString_nat rnd)
           = A @ ch @ js ''_'' @ B @ js ''>'' @ ch @ js ''</text>'' @ C
         \<and> isWellFormed A \<and> isWellFormed C \<and> (isWellFormed ch \<longrightarrow> isWellFormed B)"
proof -
  let ?fid = "js ''shadow_'' @ ch @ js ''_'' @ toString_nat rnd"
  let ?A = "joinLines [js ''    <svg xmlns=\"http://www.w3.org/2000/svg\" width=\"40\" height=\"60\" viewBox=\"0 0 40 60\" preserveAspectRatio=\"xMidYMid meet\">'',
     js ''      <defs>''] @ 0x0A # js ''        <filter id=\"shadow_''"
  let ?B = "toString_nat rnd @ js ''\">'' @ joinLines 
    [js ''          <feDropShadow dx=\"1\" dy=\"1\" stdDeviation=\"1\" flood-opacity=\"0.3\"/>'',
     js ''        </filter>'',
     js ''      </defs>'',
     js ''      <rect width=\"40\" height=\"60\" fill=\"'' @ background col @ js ''\" stroke=\"''
       @ stroke col @ js ''\" stroke-width=\"1\"/>'',
     js ''      <text '',
     js ''        x=\"20\" '',
     js ''        y=\"35\" '',
     js ''        font-family=\"'' @ fnt @ js ''\" '',
     js ''        font-size=\"30\" '',
     js ''        fill=\"'' @ fill col @ js ''\" '',
     js ''        text-anchor=\"middle\" '',
     js ''        dominant-baseline=\"middle\"'',
     js ''        filter=\"url(#'' @ ?fid @ js '')\"''] @ 0x0A # js ''      ''"
  let ?C = "0x0A # js ''    </svg>''"
  have eq: "svgTemplate ch fnt col ?fid = ?A @ ch @ js ''_'' @ ?B @ js ''>'' @ ch @ js ''</text>'' @ ?C"
    by (simp add: svgTemplate_def joinLines_def js_def)
  have wa: "isWellFormed ?A"
    by (intro wf_append wf_joinLines) (simp_all add: wf_newline)
  have wc: "isWellFormed ?C" by (simp add: wf_newline)
  have wb: "isWellFormed ?B" if "isWellFormed ch"
    using that assms
    by (intro wf_append wf_joinLines) (simp_all add: wf_newline wf_append)
  show ?thesis using eq wa wb wc by blast
qed



lemma generate_not_wf:
  assumes nwf: "\<not> isWellFormed ch"
  shows "generateFallbackLetterSVG rnd ch sty = Inl URIError"
proof -
  let ?base = "if splitHyphenFirst sty = [] then sty else splitHyphenFirst sty"
  let ?c0 = "\<lparr>fill = js ''#333'', background = js ''#f0f0f0'', stroke = js ''#ccc''\<rparr>"
  let ?c1 = "case map_of styleColorMap ?base of Some m \<Rightarrow> m
             | None \<Rightarrow> if ?base \<in> set objectPrototypeNames then undefinedColors else ?c0"
  let ?col = "if isDigit ch
                 then \<lparr>fill = js ''#6a5acd'', background = js ''#f5f0ff'', stroke = js ''#483d8b''\<rparr>
                 else if isSvgSymbol ch
                 then \<lparr>fill = js ''#ff8c00'', background = js ''#fff8f0'', stroke = js ''#cc7000''\<rparr>
                 else ?c1"
  let ?svg = "svgTemplate ch (getSystemFontFallbacks sty) ?col
                (js ''shadow_'' @ ch @ js ''_'' @ toString_nat rnd)"
  have g: "generateFallbackLetterSVG rnd ch sty
     = prepend (js ''data:image/svg+xml;charset=utf-8,'') (encodeURIComponent ?svg)"
    by (simp add: generateFallbackLetterSVG_def Let_def)
  have w1: "isWellFormed (fill ?c1) \<and> isWellFormed (background ?c1) \<and> isWellFormed (stroke ?c1)"
    using wf_styleColor by (cases "map_of styleColorMap ?base") (auto simp: undefinedColors_def)
  have wcol: "isWellFormed (fill ?col)" "isWellFormed (background ?col)" "isWellFormed (stroke ?col)"
    using w1 by auto
  obtain A B C where sp: "?svg = A @ ch @ js ''_'' @ B @ js ''>'' @ ch @ js ''</text>'' @ C"
    and wA: "isWellFormed A"
    using svgTemplate_split [OF wf_font wcol, of ch sty rnd] by blast
  let ?R = "js ''_'' @ B @ js ''>'' @ ch @ js ''</text>'' @ C"
  have "\<not> isTrailSurrogate (hd ?R)" by (simp add: js_def isTrailSurrogate_def)
  then have "encodeURIComponent (ch @ ?R) = Inl URIError"
    using encode_not_wf [OF nwf, of ?R] by blast
  moreover obtain eA where "encodeURIComponent A = Inr eA" using encode_wf [OF wA] by blast
  ultimately have "encodeURIComponent (A @ ch @ ?R) = Inl URIError"
    using encode_append [OF wA, of "ch @ ?R"] by simp
  then show ?thesis using g sp by simp
qed


lemma load_all_fail:
  assumes "\<forall>q \<in> set (buildFallbackPaths p). chk q \<noteq> Resolves True"
  shows "loadWithFallbacks chk rnd p this =
     (generateFallbackLetterSVG rnd (char p)
        (if charCase p \<noteq> [] then style p @ js ''-'' @ charCase p else style p),
      buildFallbackPaths p,
      this\<lparr>stats := (stats this)\<lparr>fallbacks := fallbacks (stats this) + 1\<rparr>\<rparr>)"
  by (simp add: loadWithFallbacks_def tryPaths_all_fail [OF assms] Let_def)


lemma keyA: "cacheKey (destructure requestA) = js ''A_sans_upper_NYC_01''"
  by (simp add: cacheKey_def destructure_def requestA_def js_def)

lemma getA_first:
  "get (checkFileExists everythingExists) 7 requestA constructor
     = (Fulfilled (js ''assets/Alphabet/cities/NYC/Alphabet/A/sans-upper/01.jpg''),
        [js ''assets/Alphabet/cities/NYC/Alphabet/A/sans-upper/01.jpg''],
        \<lparr>cache = [(js ''A_sans_upper_NYC_01'',
                   js ''assets/Alphabet/cities/NYC/Alphabet/A/sans-upper/01.jpg'')],
         loadingPromises = [],
         stats = \<lparr>requested = 1, loaded = 1, failed = 0, cached = 0, fallbacks = 0\<rparr>\<rparr>)"
  by (simp add: get_def Let_def keyA constructor_def loadWithFallbacks_def pathsA
        checkFileExists_def everythingExists_def)












lemma get_stats_mono:
  assumes "get chk rnd r this = (res, probed, this')"
  shows "requested (stats this) \<le> requested (stats this')
       \<and> loaded (stats this) \<le> loaded (stats this')
       \<and> failed (stats this) = failed (stats this')
       \<and> cached (stats this) \<le> cached (stats this')
       \<and> fallbacks (stats this) \<le> fallbacks (stats this')"
  using assms
  by (auto simp: get_def Let_def loadWithFallbacks_def
        split: option.splits prod.splits sum.splits)

lemma perform_stats_mono:
  "requested (stats this) \<le> requested (stats (perform c this))
       \<and> loaded (stats this) \<le> loaded (stats (perform c this))
       \<and> failed (stats this) = failed (stats (perform c this))
       \<and> cached (stats this) \<le> cached (stats (perform c this))
       \<and> fallbacks (stats this) \<le> fallbacks (stats (perform c this))"
proof (cases c)
  case (Get chk rnd r)
  obtain res probed this' where g: "get chk rnd r this = (res, probed, this')"
    by (cases "get chk rnd r this") auto
  show ?thesis using get_stats_mono [OF g] g Get by simp
next
  case ClearCache
  then show ?thesis by (simp add: clearCache_def)
qed

lemma performAll_stats_mono:
  "requested (stats this) \<le> requested (stats (performAll cs this))
       \<and> loaded (stats this) \<le> loaded (stats (performAll cs this))
       \<and> failed (stats this) = failed (stats (performAll cs this))
       \<and> cached (stats this) \<le> cached (stats (performAll cs this))
       \<and> fallbacks (stats this) \<le> fallbacks (stats (performAll cs this))"
  unfolding performAll_def
proof (induction cs arbitrary: this)
  case Nil
  then show ?case by simp
next
  case (Cons c cs)
  show ?case using Cons [of "perform c this"] perform_stats_mono [of this c]
    by (simp; linarith)
qed

section \<open>Properties of overlapping calls\<close>

lemma coalesced0: "coalesced world0"
  by (simp add: coalesced_def world0_def constructor_def)

lemma letterPath_inj: "letterPath p v = letterPath p v' \<longleftrightarrow> v = v'"
  by (simp add: letterPath_def)
lemma numberPath_inj: "numberPath p v = numberPath p v' \<longleftrightarrow> v = v'"
  by (simp add: numberPath_def)
lemma symbolPath_inj: "symbolPath p v = symbolPath p v' \<longleftrightarrow> v = v'"
  by (simp add: symbolPath_def)

lemma distinct_altVariants: "distinct (altVariants pv) \<and> pv \<notin> set (altVariants pv)"
  unfolding altVariants_def variantNames by (simp add: js_def)

lemma distinct_paths: "distinct (buildFallbackPaths p)"
proof -
  let ?pv = "padStart 2 (js ''0'') (variant p)"
  have a: "distinct (altVariants ?pv)" "?pv \<notin> set (altVariants ?pv)"
    using distinct_altVariants by auto
  have l: "distinct (map (letterPath p) (altVariants ?pv))"
    "distinct (map (numberPath p) (altVariants ?pv))"
    "distinct (map (symbolPath p) (altVariants ?pv))"
    using a(1) by (simp_all add: distinct_map inj_on_def letterPath_inj numberPath_inj symbolPath_inj)
  have n: "letterPath p ?pv \<notin> letterPath p ` set (altVariants ?pv)"
     "numberPath p ?pv \<notin> numberPath p ` set (altVariants ?pv)"
     "symbolPath p ?pv \<notin> symbolPath p ` set (altVariants ?pv)"
    using a(2) by (auto simp: letterPath_inj numberPath_inj symbolPath_inj)
  have c: "cityFallbackPath p ?pv \<noteq> letterPath p v" for v
    by (simp add: cityFallbackPath_def letterPath_def js_def)
  have m: "js ''assets/missing.png'' \<noteq> letterPath p v"
      "js ''assets/missing.png'' \<noteq> cityFallbackPath p v"
      "js ''assets/missing.png'' \<noteq> numberPath p v"
      "js ''assets/missing.png'' \<noteq> symbolPath p v" for v
    by (simp_all add: cityFallbackPath_def letterPath_def numberPath_def symbolPath_def js_def)
  have ci: "cityFallbackPath p ?pv \<notin> letterPath p ` S" for S
    using c by blast
  have mi: "js ''assets/missing.png'' \<notin> letterPath p ` S"
      "js ''assets/missing.png'' \<notin> numberPath p ` S"
      "js ''assets/missing.png'' \<notin> symbolPath p ` S" for S
    using m by blast+
  have m': "js ''assets/missing.png'' \<noteq> letterPath p ?pv"
      "js ''assets/missing.png'' \<noteq> cityFallbackPath p ?pv"
      "js ''assets/missing.png'' \<noteq> numberPath p ?pv"
      "js ''assets/missing.png'' \<noteq> symbolPath p ?pv"
    using m by blast+
  have c': "letterPath p ?pv \<noteq> cityFallbackPath p ?pv"
    using c [of ?pv] by simp
  show ?thesis
    using m' c' by (simp add: buildFallbackPaths_def Let_def l n ci mi)
qed

lemma finish_fields [simp]:
  "map_of (running (finish pid t res w)) = (map_of (running w))(pid := None)"
  "map_of (loadingPromises (manager (finish pid t res w)))
     = (map_of (loadingPromises (manager w)))(t_key t := None)"
  "probes (finish pid t res w) = probes w"
  "fresh (finish pid t res w) = fresh w"
  by (auto simp: finish_def Let_def delete_conv' split: sum.splits)

lemma finish_cache:
  "map_of (cache (manager (finish pid t res w))) k
     = (case res of Inr url \<Rightarrow> if k = t_key t then Some url else map_of (cache (manager w)) k
        | Inl e \<Rightarrow> map_of (cache (manager w)) k)"
  by (auto simp: finish_def Let_def update_conv' split: sum.splits)

lemma probesOf_finish [simp]: "probesOf p (finish pid t res w) = probesOf p w"
  by (simp add: probesOf_def)

lemma coalesced_stats [simp]:
  "coalesced (w\<lparr>manager := (manager w)\<lparr>stats := s\<rparr>\<rparr>) = coalesced w"
  by (simp add: coalesced_def probesOf_def)

lemma coalescedI:
  assumes "\<And>k pid. map_of (loadingPromises (manager w)) k = Some pid \<Longrightarrow>
        \<exists>t. map_of (running w) pid = Some t \<and> t_key t = k"
    and "\<And>pid t. map_of (running w) pid = Some t \<Longrightarrow>
        map_of (loadingPromises (manager w)) (t_key t) = Some pid
      \<and> map_of (cache (manager w)) (t_key t) = None
      \<and> pid < fresh w
      \<and> probesOf pid w @ t_rest t = buildFallbackPaths (t_params t)
      \<and> probesOf pid w \<noteq> [] \<and> t_waiting t = last (probesOf pid w)"
    and "\<And>pid path. (pid, path) \<in> set (probes w) \<Longrightarrow> pid < fresh w"
    and "distinct (probes w)"
  shows "coalesced w"
  unfolding coalesced_def using assms by blast

lemma coalesced_loading:
  "coalesced w \<Longrightarrow> map_of (loadingPromises (manager w)) k = Some pid \<Longrightarrow>
     \<exists>t. map_of (running w) pid = Some t \<and> t_key t = k"
  unfolding coalesced_def by blast

lemma coalesced_running:
  "coalesced w \<Longrightarrow> map_of (running w) pid = Some t \<Longrightarrow>
        map_of (loadingPromises (manager w)) (t_key t) = Some pid
      \<and> map_of (cache (manager w)) (t_key t) = None
      \<and> pid < fresh w
      \<and> probesOf pid w @ t_rest t = buildFallbackPaths (t_params t)
      \<and> probesOf pid w \<noteq> [] \<and> t_waiting t = last (probesOf pid w)"
  unfolding coalesced_def by blast

lemma coalesced_probes:
  "coalesced w \<Longrightarrow> (pid, path) \<in> set (probes w) \<Longrightarrow> pid < fresh w"
  "coalesced w \<Longrightarrow> distinct (probes w)"
  unfolding coalesced_def by blast+

lemma finish_coalesced:
  assumes c: "coalesced w" and r: "map_of (running w) pid = Some t"
  shows "coalesced (finish pid t res w)"
proof (rule coalescedI)
  fix k p
  assume "map_of (loadingPromises (manager (finish pid t res w))) k = Some p"
  then have k: "k \<noteq> t_key t" and l: "map_of (loadingPromises (manager w)) k = Some p"
    by (auto split: if_splits)
  from coalesced_loading [OF c l] obtain t' where t': "map_of (running w) p = Some t'" "t_key t' = k"
    by blast
  with k r have "p \<noteq> pid" by auto
  then show "\<exists>u. map_of (running (finish pid t res w)) p = Some u \<and> t_key u = k"
    using t' by simp
next
  fix p t'
  assume "map_of (running (finish pid t res w)) p = Some t'"
  then have ne: "p \<noteq> pid" and rp: "map_of (running w) p = Some t'"
    by (auto split: if_splits)
  note i = coalesced_running [OF c rp]
  from coalesced_running [OF c r]
  have "map_of (loadingPromises (manager w)) (t_key t) = Some pid" by blast
  with i ne have kk: "t_key t' \<noteq> t_key t" by auto
  show "map_of (loadingPromises (manager (finish pid t res w))) (t_key t') = Some p
      \<and> map_of (cache (manager (finish pid t res w))) (t_key t') = None
      \<and> p < fresh (finish pid t res w)
      \<and> probesOf p (finish pid t res w) @ t_rest t' = buildFallbackPaths (t_params t')
      \<and> probesOf p (finish pid t res w) \<noteq> []
      \<and> t_waiting t' = last (probesOf p (finish pid t res w))"
    using i kk by (simp add: finish_cache split: sum.splits)
next
  fix p path
  assume "(p, path) \<in> set (probes (finish pid t res w))"
  then show "p < fresh (finish pid t res w)" using coalesced_probes(1) [OF c] by simp
next
  show "distinct (probes (finish pid t res w))" using coalesced_probes(2) [OF c] by simp
qed

lemma probesOf_snoc:
  "probesOf p (w\<lparr>running := rs, probes := probes w @ [(pid, path)]\<rparr>)
     = probesOf p w @ (if p = pid then [path] else [])"
  by (simp add: probesOf_def)

lemma in_probesOf: "(p, path) \<in> set (probes w) \<longleftrightarrow> path \<in> set (probesOf p w)"
  by (force simp: probesOf_def)

lemma probe_next_coalesced:
  assumes c: "coalesced w" and r: "map_of (running w) pid = Some t"
    and tr: "t_rest t = path # rest"
  shows "coalesced (w\<lparr>running := AList.update pid (t\<lparr>t_waiting := path, t_rest := rest\<rparr>) (running w),
            probes := probes w @ [(pid, path)]\<rparr>)"
    (is "coalesced ?w'")
proof (rule coalescedI)
  note i = coalesced_running [OF c r]
  have d: "distinct (probesOf pid w @ path # rest)"
    using i tr distinct_paths [of "t_params t"] by simp
  then have np: "(pid, path) \<notin> set (probes w)" by (simp add: in_probesOf)
  {
    fix k p
    assume "map_of (loadingPromises (manager ?w')) k = Some p"
    then have l: "map_of (loadingPromises (manager w)) k = Some p" by simp
    from coalesced_loading [OF c l] obtain t' where t': "map_of (running w) p = Some t'" "t_key t' = k"
      by blast
    show "\<exists>u. map_of (running ?w') p = Some u \<and> t_key u = k"
      using t' r by (cases "p = pid") (auto simp: update_conv')
  next
    fix p t'
    assume a: "map_of (running ?w') p = Some t'"
    show "map_of (loadingPromises (manager ?w')) (t_key t') = Some p
      \<and> map_of (cache (manager ?w')) (t_key t') = None
      \<and> p < fresh ?w'
      \<and> probesOf p ?w' @ t_rest t' = buildFallbackPaths (t_params t')
      \<and> probesOf p ?w' \<noteq> [] \<and> t_waiting t' = last (probesOf p ?w')"
    proof (cases "p = pid")
      case True
      then have t'eq: "t' = t\<lparr>t_waiting := path, t_rest := rest\<rparr>"
        using a by (simp add: update_conv')
      show ?thesis using i tr True by (simp add: t'eq probesOf_snoc)
    next
      case False
      then have rp: "map_of (running w) p = Some t'" using a by (simp add: update_conv')
      show ?thesis using coalesced_running [OF c rp] False by (simp add: probesOf_snoc)
    qed
  next
    fix p q
    assume "(p, q) \<in> set (probes ?w')"
    then show "p < fresh ?w'" using coalesced_probes(1) [OF c] i by auto
  next
    show "distinct (probes ?w')" using coalesced_probes(2) [OF c] np by simp
  }
qed

lemma bump_running:
  "map_of (running (w\<lparr>manager := m\<rparr>)) = map_of (running w)"
  by simp

lemma loadStep_coalesced:
  assumes c: "coalesced w" and r: "map_of (running w) pid = Some t"
  shows "coalesced (loadStep rnd pid t (t_rest t) w)"
proof (cases "t_rest t")
  case Nil
  let ?w' = "w\<lparr>manager := (manager w)\<lparr>stats :=
      (stats (manager w))\<lparr>fallbacks := fallbacks (stats (manager w)) + 1\<rparr>\<rparr>\<rparr>"
  have "coalesced ?w'" using c by simp
  moreover have "map_of (running ?w') pid = Some t" using r by simp
  ultimately show ?thesis
    using Nil by (simp add: loadStep_def Let_def finish_coalesced)
next
  case (Cons path rest)
  then show ?thesis
    using probe_next_coalesced [OF c r Cons] by (simp add: loadStep_def)
qed

lemma settle_coalesced:
  assumes c: "coalesced w"
  shows "coalesced (settle rnd pid outcome w)"
proof (cases "map_of (running w) pid")
  case None
  then show ?thesis using c by (simp add: settle_def)
next
  case (Some t)
  show ?thesis
  proof (cases "outcome = Resolves True")
    case True
    let ?w' = "w\<lparr>manager := (manager w)\<lparr>stats :=
      (stats (manager w))\<lparr>loaded := loaded (stats (manager w)) + 1\<rparr>\<rparr>\<rparr>"
    have "coalesced ?w'" using c by simp
    moreover have "map_of (running ?w') pid = Some t" using Some by simp
    ultimately show ?thesis
      using Some True by (simp add: settle_def Let_def finish_coalesced)
  next
    case False
    then have "settle rnd pid outcome w = loadStep rnd pid t (t_rest t) w"
      using Some by (auto simp: settle_def split: probe.splits bool.splits)
    then show ?thesis using loadStep_coalesced [OF c Some] by simp
  qed
qed

lemma paths_Cons: "\<exists>path rest. buildFallbackPaths p = path # rest"
  by (cases "buildFallbackPaths p") (simp_all add: buildFallbackPaths_def Let_def)

lemma probesOf_fresh:
  assumes "coalesced w" shows "probesOf (fresh w) w = []"
proof -
  have "\<forall>x \<in> set (probes w). fst x \<noteq> fresh w"
    using coalesced_probes(1) [OF assms] by fastforce
  then show ?thesis by (auto simp: probesOf_def filter_empty_conv)
qed

lemma start_coalesced:
  assumes c: "coalesced w"
    and nl: "map_of (loadingPromises (manager w)) key = None"
    and nc: "map_of (cache (manager w)) key = None"
    and ps: "buildFallbackPaths p = path # rest"
  shows "coalesced
    (w\<lparr>manager := (manager w)\<lparr>loadingPromises :=
            AList.update key (fresh w) (loadingPromises (manager w))\<rparr>,
       fresh := Suc (fresh w),
       running := AList.update (fresh w)
         \<lparr>t_key = key, t_params = p, t_waiting = path, t_rest = rest\<rparr> (running w),
       probes := probes w @ [(fresh w, path)]\<rparr>)" (is "coalesced ?w'")
proof (rule coalescedI)
  have nf: "map_of (running w) (fresh w) = None"
  proof (cases "map_of (running w) (fresh w)")
    case None then show ?thesis .
  next
    case (Some t)
    then show ?thesis using coalesced_running [OF c Some] by simp
  qed
  have pf: "probesOf (fresh w) w = []" by (rule probesOf_fresh [OF c])
  have po: "probesOf q ?w' = probesOf q w @ (if q = fresh w then [path] else [])" for q
    by (simp add: probesOf_def)
  {
    fix k q
    assume a: "map_of (loadingPromises (manager ?w')) k = Some q"
    show "\<exists>u. map_of (running ?w') q = Some u \<and> t_key u = k"
    proof (cases "k = key")
      case True
      then show ?thesis using a by (simp add: update_conv')
    next
      case False
      then have l: "map_of (loadingPromises (manager w)) k = Some q"
        using a by (simp add: update_conv')
      from coalesced_loading [OF c l] obtain t' where
        t': "map_of (running w) q = Some t'" "t_key t' = k" by blast
      then have "q \<noteq> fresh w" using nf by auto
      then show ?thesis using t' by (simp add: update_conv')
    qed
  next
    fix q t'
    assume a: "map_of (running ?w') q = Some t'"
    show "map_of (loadingPromises (manager ?w')) (t_key t') = Some q
      \<and> map_of (cache (manager ?w')) (t_key t') = None
      \<and> q < fresh ?w'
      \<and> probesOf q ?w' @ t_rest t' = buildFallbackPaths (t_params t')
      \<and> probesOf q ?w' \<noteq> [] \<and> t_waiting t' = last (probesOf q ?w')"
    proof (cases "q = fresh w")
      case True
      then have "t' = \<lparr>t_key = key, t_params = p, t_waiting = path, t_rest = rest\<rparr>"
        using a by (simp add: update_conv')
      then show ?thesis using True nc ps pf by (simp add: po update_conv')
    next
      case False
      then have rq: "map_of (running w) q = Some t'" using a by (simp add: update_conv')
      note j = coalesced_running [OF c rq]
      then have "t_key t' \<noteq> key" using nl by auto
      then show ?thesis using j False by (simp add: po update_conv')
    qed
  next
    fix q x
    assume "(q, x) \<in> set (probes ?w')"
    then have "q = fresh w \<or> (q, x) \<in> set (probes w)" by auto
    then show "q < fresh ?w'" using coalesced_probes(1) [OF c, of q x] by auto
  next
    have "(fresh w, path) \<notin> set (probes w)" using pf by (simp add: in_probesOf)
    then show "distinct (probes ?w')" using coalesced_probes(2) [OF c] by simp
  }
qed

lemma call_coalesced:
  assumes c: "coalesced w"
  shows "coalesced (snd (call rnd r w))"
proof -
  let ?p = "destructure r"
  let ?key = "cacheKey ?p"
  let ?w1 = "w\<lparr>manager := (manager w)\<lparr>stats :=
      (stats (manager w))\<lparr>requested := requested (stats (manager w)) + 1\<rparr>\<rparr>\<rparr>"
  have c1: "coalesced ?w1" using c by simp
  show ?thesis
  proof (cases "map_of (cache (manager w)) ?key")
    case (Some url)
    then show ?thesis using c by (simp add: call_def Let_def)
  next
    case None
    show ?thesis
    proof (cases "map_of (loadingPromises (manager w)) ?key")
      case (Some pid)
      then show ?thesis using c1 None by (simp add: call_def Let_def)
    next
      case nl: None
      obtain path rest where ps: "buildFallbackPaths ?p = path # rest"
        using paths_Cons by blast
      have nl1: "map_of (loadingPromises (manager ?w1)) ?key = None" using nl by simp
      have nc1: "map_of (cache (manager ?w1)) ?key = None" using None by simp
      show ?thesis
        using start_coalesced [OF c1 nl1 nc1 ps] None nl ps
        by (simp add: call_def Let_def loadStep_def)
    qed
  qed
qed

lemma step_coalesced:
  assumes "coalesced w" and "e = Clear \<longrightarrow> running w = []"
  shows "coalesced (step e w)"
proof (cases e)
  case (Call rnd r)
  then show ?thesis using call_coalesced [OF assms(1)] by simp
next
  case (Settle rnd pid outcome)
  then show ?thesis using settle_coalesced [OF assms(1)] by simp
next
  case Clear
  then have "running w = []" using assms(2) by simp
  then show ?thesis using assms(1) Clear
    by (simp add: coalesced_def clearCache_def probesOf_def)
qed

lemma run_coalesced:
  "coalesced w \<Longrightarrow> quietClears evs w \<Longrightarrow> coalesced (fold step evs w)"
proof (induction evs arbitrary: w)
  case Nil
  then show ?case by simp
next
  case (Cons e evs)
  then show ?case using step_coalesced [of w e] by simp
qed

text \<open>
  The two models of \<open>get\<close> agree: a call that misses both maps, resumed alone until it
  settles, leaves the manager, the checks and the outcome that the sequential \<open>get\<close>
  computes.
\<close>

lemma loadWithFallbacks_alt:
  "loadWithFallbacks chk rnd p this =
     (loadResult rnd p (fst (tryPaths chk (buildFallbackPaths p))),
      snd (tryPaths chk (buildFallbackPaths p)),
      loadStats (fst (tryPaths chk (buildFallbackPaths p))) this)"
  by (simp add: loadWithFallbacks_def loadResult_def loadStats_def Let_def
        split: prod.splits option.splits)

lemma get_miss:
  assumes "map_of (cache this) (cacheKey (destructure r)) = None"
    "map_of (loadingPromises this) (cacheKey (destructure r)) = None"
  shows "get chk rnd r this =
     (settledAs (loadResult rnd (destructure r)
        (fst (tryPaths chk (buildFallbackPaths (destructure r))))),
      snd (tryPaths chk (buildFallbackPaths (destructure r))),
      afterLoad (cacheKey (destructure r))
        (loadResult rnd (destructure r) (fst (tryPaths chk (buildFallbackPaths (destructure r)))))
        (loadStats (fst (tryPaths chk (buildFallbackPaths (destructure r))))
           (this\<lparr>stats := (stats this)\<lparr>requested := requested (stats this) + 1\<rparr>\<rparr>)))"
  using assms
  by (simp add: get_def Let_def loadWithFallbacks_alt afterLoad_def settledAs_def loadStats_def
        split: sum.splits option.splits)

lemma finish_manager: "manager (finish pid t res w) = afterLoad (t_key t) res (manager w)"
  by (simp add: finish_def afterLoad_def Let_def split: sum.splits)

lemma finish_rest:
  "probes (finish pid t res w) = probes w"
  "settled (finish pid t res w) = settled w @ [(pid, res)]"
  "map_of (running (finish pid t res w)) pid = None"
  by (simp_all add: finish_def Let_def delete_conv')

lemma drive_done: "map_of (running w) pid = None \<Longrightarrow> drive chk rnd pid n w = w"
  by (cases n) simp_all

lemma drive_task:
  assumes "map_of (running w) pid = Some t" "t_waiting t = path" "t_rest t = rest"
    "length rest < n"
  shows "manager (drive chk rnd pid n w) =
           afterLoad (t_key t) (loadResult rnd (t_params t) (fst (tryPaths chk (path # rest))))
             (loadStats (fst (tryPaths chk (path # rest))) (manager w))
       \<and> probes (drive chk rnd pid n w) =
           probes w @ map (Pair pid) (tl (snd (tryPaths chk (path # rest))))
       \<and> settled (drive chk rnd pid n w) =
           settled w @ [(pid, loadResult rnd (t_params t) (fst (tryPaths chk (path # rest))))]"
  using assms
proof (induction rest arbitrary: w t path n)
  case Nil
  then obtain m where n: "n = Suc m" by (cases n) auto
  show ?case
  proof (cases "chk path = Resolves True")
    case True
    then show ?thesis using Nil n
      by (simp add: settle_def Let_def finish_manager finish_rest drive_done
            loadResult_def loadStats_def)
  next
    case False
    then have s: "settle rnd pid (chk path) w = loadStep rnd pid t [] w"
      using Nil by (auto simp: settle_def split: probe.splits bool.splits)
    have tp: "tryPaths chk [path] = (None, [path])"
      using False by (auto split: probe.splits bool.splits)
    show ?thesis using Nil n s
      unfolding tp
      by (simp add: loadStep_def Let_def finish_manager finish_rest drive_done
            loadResult_def loadStats_def)
  qed
next
  case (Cons q qs)
  then obtain m where n: "n = Suc m" by (cases n) auto
  show ?case
  proof (cases "chk path = Resolves True")
    case True
    then show ?thesis using Cons.prems n
      by (simp add: settle_def Let_def finish_manager finish_rest drive_done
            loadResult_def loadStats_def)
  next
    case False
    let ?t' = "t\<lparr>t_waiting := q, t_rest := qs\<rparr>"
    let ?w' = "w\<lparr>running := AList.update pid ?t' (running w), probes := probes w @ [(pid, q)]\<rparr>"
    have s: "settle rnd pid (chk path) w = ?w'"
      using Cons.prems False
      by (auto simp: settle_def loadStep_def split: probe.splits bool.splits)
    have d: "drive chk rnd pid n w = drive chk rnd pid m ?w'"
      using Cons.prems n s by simp
    have r: "map_of (running ?w') pid = Some ?t'" by (simp add: update_conv')
    have l: "length qs < m" using Cons.prems n by simp
    have w2: "t_waiting ?t' = q" and r2: "t_rest ?t' = qs" by simp_all
    note ih = Cons.IH [OF r w2 r2 l]
    obtain found probed where tq: "tryPaths chk (q # qs) = (found, probed)"
      by (cases "tryPaths chk (q # qs)") auto
    have tp: "tryPaths chk (path # q # qs) = (found, path # probed)"
      using False tq by (auto split: probe.splits bool.splits)
    have pne: "probed \<noteq> []" using tq by (auto split: probe.splits bool.splits prod.splits)
    have hd: "hd probed = q" using tq by (auto split: probe.splits bool.splits prod.splits)
    have pq: "probed = q # tl probed" using pne hd by (cases probed) auto
    have mp: "map (Pair pid) probed = (pid, q) # map (Pair pid) (tl probed)"
      by (subst pq) simp
    show ?thesis
      unfolding d tp using ih [unfolded tq] mp by simp
  qed
qed

lemma get_is_call_then_settlements:
  assumes nc: "map_of (cache (manager w)) (cacheKey (destructure r)) = None"
    and nl: "map_of (loadingPromises (manager w)) (cacheKey (destructure r)) = None"
  shows "\<exists>res. fst (call rnd r w) = Later (fresh w)
     \<and> fst (get chk rnd r (manager w)) = settledAs res
     \<and> settled (drive chk rnd (fresh w) (length (buildFallbackPaths (destructure r)))
          (snd (call rnd r w))) = settled w @ [(fresh w, res)]
     \<and> manager (drive chk rnd (fresh w) (length (buildFallbackPaths (destructure r)))
          (snd (call rnd r w))) = snd (snd (get chk rnd r (manager w)))
     \<and> probes (drive chk rnd (fresh w) (length (buildFallbackPaths (destructure r)))
          (snd (call rnd r w)))
        = probes w @ map (Pair (fresh w)) (fst (snd (get chk rnd r (manager w))))"
proof -
  let ?p = "destructure r"
  let ?key = "cacheKey ?p"
  let ?pid = "fresh w"
  let ?this1 = "(manager w)\<lparr>stats := (stats (manager w))\<lparr>requested :=
      requested (stats (manager w)) + 1\<rparr>\<rparr>"
  obtain path rest where ps: "buildFallbackPaths ?p = path # rest"
    using paths_Cons by blast
  let ?t = "\<lparr>t_key = ?key, t_params = ?p, t_waiting = path, t_rest = rest\<rparr>"
  let ?w1 = "w\<lparr>manager := ?this1\<lparr>loadingPromises :=
                 AList.update ?key ?pid (loadingPromises ?this1)\<rparr>,
               fresh := ?pid + 1,
               running := AList.update ?pid ?t (running w),
               probes := probes w @ [(?pid, path)]\<rparr>"
  let ?found = "fst (tryPaths chk (path # rest))"
  let ?probed = "snd (tryPaths chk (path # rest))"
  let ?res = "loadResult rnd ?p ?found"
  have c: "call rnd r w = (Later ?pid, ?w1)"
    using nc nl ps by (simp add: call_def Let_def loadStep_def)
  have r: "map_of (running ?w1) ?pid = Some ?t" by (simp add: update_conv')
  have l: "length rest < length (buildFallbackPaths ?p)" using ps by simp
  have tw: "t_waiting ?t = path" and tr: "t_rest ?t = rest" by simp_all
  have pp: "?probed = path # tl ?probed"
    by (auto split: probe.splits bool.splits prod.splits)
  have mp: "map (Pair ?pid) ?probed = (?pid, path) # map (Pair ?pid) (tl ?probed)"
    by (subst pp) simp
  note d = drive_task [where chk = chk and rnd = rnd, OF r tw tr l]
  note g = get_miss [OF nc nl, of chk rnd, unfolded ps]
  let ?W = "drive chk rnd ?pid (length (buildFallbackPaths ?p)) ?w1"
  have m: "manager ?W = afterLoad ?key ?res (loadStats ?found (manager ?w1))"
    using d by simp
  have e: "afterLoad ?key ?res (loadStats ?found (manager ?w1))
         = afterLoad ?key ?res (loadStats ?found ?this1)"
    by (simp add: afterLoad_def loadStats_def delete_update_same
          split: sum.splits option.splits)
  have p: "probes ?W = probes w @ map (Pair ?pid) ?probed"
    using d mp by simp
  have s: "settled ?W = settled w @ [(?pid, ?res)]"
    using d by simp
  show ?thesis
    apply (rule exI [of _ ?res])
    unfolding c g snd_conv fst_conv
    using m e p s by simp
qed

text \<open>
  C2 (amended). In every world reached from a new manager by calls of \<open>get\<close>, settlements
  of existence checks and calls of \<open>clearCache\<close> made only while nothing is in flight:
  no two suspended activations have the same key; a call of \<open>get\<close> whose key has an
  activation in flight starts nothing and invokes no check, it only counts the request
  and hands its caller the promise of that activation; the checks of an activation are an
  initial part of its candidate list, each path checked once; and no promise has checked
  a path twice.
\<close>

theorem concurrent_gets_share_one_resolution:
  assumes q: "quietClears evs world0" and w: "w = fold step evs world0"
  shows "(\<forall>pid t pid' t'. map_of (running w) pid = Some t \<and> map_of (running w) pid' = Some t'
            \<and> t_key t = t_key t' \<longrightarrow> pid = pid')
       \<and> (\<forall>pid t r rnd. map_of (running w) pid = Some t \<and> cacheKey (destructure r) = t_key t \<longrightarrow>
            call rnd r w =
              (Later pid,
               w\<lparr>manager := (manager w)\<lparr>stats :=
                   (stats (manager w))\<lparr>requested := requested (stats (manager w)) + 1\<rparr>\<rparr>\<rparr>))
       \<and> (\<forall>pid t. map_of (running w) pid = Some t \<longrightarrow>
            prefix (probesOf pid w) (buildFallbackPaths (t_params t))
            \<and> distinct (probesOf pid w))
       \<and> distinct (probes w)
       \<and> (\<forall>r rnd. map_of (cache (manager w)) (cacheKey (destructure r)) = None
            \<and> map_of (loadingPromises (manager w)) (cacheKey (destructure r)) = None \<longrightarrow>
            fst (call rnd r w) = Later (fresh w)
            \<and> (\<exists>t. map_of (running (snd (call rnd r w))) (fresh w) = Some t
                 \<and> t_key t = cacheKey (destructure r)))"
proof -
  have c: "coalesced w" unfolding w by (rule run_coalesced [OF coalesced0 q])
  have start: "fst (call rnd r w) = Later (fresh w)
            \<and> (\<exists>t. map_of (running (snd (call rnd r w))) (fresh w) = Some t
                 \<and> t_key t = cacheKey (destructure r))"
    if "map_of (cache (manager w)) (cacheKey (destructure r)) = None"
       "map_of (loadingPromises (manager w)) (cacheKey (destructure r)) = None"
    for r rnd
  proof -
    obtain path rest where "buildFallbackPaths (destructure r) = path # rest"
      using paths_Cons by blast
    then show ?thesis using that by (simp add: call_def Let_def loadStep_def update_conv')
  qed
  have one: "pid = pid'"
    if "map_of (running w) pid = Some t" "map_of (running w) pid' = Some t'" "t_key t = t_key t'"
    for pid t pid' t'
    using coalesced_running [OF c that(1)] coalesced_running [OF c that(2)] that(3) by simp
  have join: "call rnd r w =
              (Later pid,
               w\<lparr>manager := (manager w)\<lparr>stats :=
                   (stats (manager w))\<lparr>requested := requested (stats (manager w)) + 1\<rparr>\<rparr>\<rparr>)"
    if "map_of (running w) pid = Some t" "cacheKey (destructure r) = t_key t"
    for pid t r rnd
    using coalesced_running [OF c that(1)] that(2) by (simp add: call_def Let_def)
  have pre: "prefix (probesOf pid w) (buildFallbackPaths (t_params t))
            \<and> distinct (probesOf pid w)"
    if "map_of (running w) pid = Some t" for pid t
  proof -
    from coalesced_running [OF c that]
    have e: "probesOf pid w @ t_rest t = buildFallbackPaths (t_params t)" by blast
    then have "prefix (probesOf pid w) (buildFallbackPaths (t_params t))"
      by (metis prefixI)
    moreover have "distinct (probesOf pid w)"
      using distinct_paths [of "t_params t"] e by (metis distinct_append)
    ultimately show ?thesis by blast
  qed
  show ?thesis using one join pre coalesced_probes(2) [OF c] start by blast
qed

lemma callA_first:
  "step (Call 7 requestA) world0 =
     \<lparr>manager = \<lparr>cache = [], loadingPromises = [(js ''A_sans_upper_NYC_01'', 0)],
         stats = \<lparr>requested = 1, loaded = 0, failed = 0, cached = 0, fallbacks = 0\<rparr>\<rparr>,
      running = [(0, \<lparr>t_key = js ''A_sans_upper_NYC_01'', t_params = destructure requestA,
          t_waiting = js ''assets/Alphabet/cities/NYC/Alphabet/A/sans-upper/01.jpg'',
          t_rest = [js ''assets/Alphabet/cities/NYC/fallback/sans-upper/01.jpg'',
            js ''assets/Alphabet/cities/NYC/Alphabet/A/sans-upper/02.jpg'',
            js ''assets/Alphabet/cities/NYC/Alphabet/A/sans-upper/03.jpg'',
            js ''assets/Alphabet/cities/NYC/Alphabet/A/sans-upper/04.jpg'',
            js ''assets/Alphabet/cities/NYC/Alphabet/A/sans-upper/05.jpg'',
            js ''assets/missing.png'']\<rparr>)],
      settled = [],
      probes = [(0, js ''assets/Alphabet/cities/NYC/Alphabet/A/sans-upper/01.jpg'')],
      fresh = 1\<rparr>"
  by (simp add: call_def Let_def world0_def constructor_def keyA pathsA loadStep_def)

theorem concurrent_gets_share_one_resolution_witness:
  "quietClears [Call 7 requestA] world0
   \<and> map_of (running (fold step [Call 7 requestA] world0)) 0 =
       Some \<lparr>t_key = js ''A_sans_upper_NYC_01'', t_params = destructure requestA,
          t_waiting = js ''assets/Alphabet/cities/NYC/Alphabet/A/sans-upper/01.jpg'',
          t_rest = [js ''assets/Alphabet/cities/NYC/fallback/sans-upper/01.jpg'',
            js ''assets/Alphabet/cities/NYC/Alphabet/A/sans-upper/02.jpg'',
            js ''assets/Alphabet/cities/NYC/Alphabet/A/sans-upper/03.jpg'',
            js ''assets/Alphabet/cities/NYC/Alphabet/A/sans-upper/04.jpg'',
            js ''assets/Alphabet/cities/NYC/Alphabet/A/sans-upper/05.jpg'',
            js ''assets/missing.png'']\<rparr>
   \<and> cacheKey (destructure requestA) = js ''A_sans_upper_NYC_01''
   \<and> fst (call 8 requestA (fold step [Call 7 requestA] world0)) = Later 0
   \<and> probes (snd (call 8 requestA (fold step [Call 7 requestA] world0)))
       = [(0, js ''assets/Alphabet/cities/NYC/Alphabet/A/sans-upper/01.jpg'')]
   \<and> running (snd (call 8 requestA (fold step [Call 7 requestA] world0)))
       = running (fold step [Call 7 requestA] world0)"
proof -
  have q: "quietClears [Call 7 requestA] world0" by simp
  have f: "fold step [Call 7 requestA] world0 = step (Call 7 requestA) world0" by simp
  have r: "map_of (running (fold step [Call 7 requestA] world0)) 0 =
       Some \<lparr>t_key = js ''A_sans_upper_NYC_01'', t_params = destructure requestA,
          t_waiting = js ''assets/Alphabet/cities/NYC/Alphabet/A/sans-upper/01.jpg'',
          t_rest = [js ''assets/Alphabet/cities/NYC/fallback/sans-upper/01.jpg'',
            js ''assets/Alphabet/cities/NYC/Alphabet/A/sans-upper/02.jpg'',
            js ''assets/Alphabet/cities/NYC/Alphabet/A/sans-upper/03.jpg'',
            js ''assets/Alphabet/cities/NYC/Alphabet/A/sans-upper/04.jpg'',
            js ''assets/Alphabet/cities/NYC/Alphabet/A/sans-upper/05.jpg'',
            js ''assets/missing.png'']\<rparr>"
    unfolding f callA_first by simp
  have j: "call 8 requestA (fold step [Call 7 requestA] world0) =
      (Later 0, (fold step [Call 7 requestA] world0)\<lparr>manager :=
         (manager (fold step [Call 7 requestA] world0))\<lparr>stats :=
           (stats (manager (fold step [Call 7 requestA] world0)))\<lparr>requested :=
              requested (stats (manager (fold step [Call 7 requestA] world0))) + 1\<rparr>\<rparr>\<rparr>)"
    by (rule concurrent_gets_share_one_resolution [OF q refl, THEN conjunct2, THEN conjunct1, rule_format])
       (rule conjI, rule r, simp add: keyA)
  have p: "probes (fold step [Call 7 requestA] world0)
     = [(0, js ''assets/Alphabet/cities/NYC/Alphabet/A/sans-upper/01.jpg'')]"
    unfolding f callA_first by simp
  show ?thesis using q r keyA p unfolding j by simp
qed

text \<open>
  C2 as stated fails: \<open>get\<close>, \<open>clearCache\<close>, \<open>get\<close> with the same request and no settlement
  in between leave two activations in flight for one key, and the primary path has been
  checked twice.
\<close>

theorem clearCache_in_flight_duplicates_resolution:
  "map fst (running (fold step [Call 7 requestA, Clear, Call 8 requestA] world0)) = [0, 1]
   \<and> map (t_key \<circ> snd) (running (fold step [Call 7 requestA, Clear, Call 8 requestA] world0))
       = [js ''A_sans_upper_NYC_01'', js ''A_sans_upper_NYC_01'']
   \<and> probes (fold step [Call 7 requestA, Clear, Call 8 requestA] world0)
       = [(0, js ''assets/Alphabet/cities/NYC/Alphabet/A/sans-upper/01.jpg''),
          (1, js ''assets/Alphabet/cities/NYC/Alphabet/A/sans-upper/01.jpg'')]"
proof -
  have "fold step [Call 7 requestA, Clear, Call 8 requestA] world0
      = step (Call 8 requestA) (step Clear (step (Call 7 requestA) world0))" by simp
  then show ?thesis
    unfolding callA_first
    by (simp add: call_def Let_def clearCache_def keyA pathsA loadStep_def)
qed

lemma statsLe_refl [simp]: "statsLe a a" by (simp add: statsLe_def)
lemma statsLe_trans: "statsLe a b \<Longrightarrow> statsLe b c \<Longrightarrow> statsLe a c"
  by (auto simp: statsLe_def)

lemma finish_stats [simp]: "stats (manager (finish pid t res w)) = stats (manager w)"
  by (simp add: finish_def Let_def split: sum.splits)

lemma loadStep_stats: "statsLe (stats (manager w)) (stats (manager (loadStep rnd pid t paths w)))"
  by (cases paths) (simp_all add: loadStep_def Let_def statsLe_def)

lemma settle_stats: "statsLe (stats (manager w)) (stats (manager (settle rnd pid outcome w)))"
proof (cases "map_of (running w) pid")
  case None
  then show ?thesis by (simp add: settle_def)
next
  case (Some t)
  show ?thesis
  proof (cases "outcome = Resolves True")
    case True
    then show ?thesis using Some by (simp add: settle_def Let_def statsLe_def)
  next
    case False
    then have "settle rnd pid outcome w = loadStep rnd pid t (t_rest t) w"
      using Some by (auto simp: settle_def split: probe.splits bool.splits)
    then show ?thesis using loadStep_stats by simp
  qed
qed

lemma call_stats: "statsLe (stats (manager w)) (stats (manager (snd (call rnd r w))))"
proof -
  let ?w1 = "w\<lparr>manager := (manager w)\<lparr>stats :=
      (stats (manager w))\<lparr>requested := requested (stats (manager w)) + 1\<rparr>\<rparr>\<rparr>"
  have a: "statsLe (stats (manager w)) (stats (manager ?w1))" by (simp add: statsLe_def)
  show ?thesis
  proof (cases "map_of (cache (manager w)) (cacheKey (destructure r))")
    case (Some url)
    then show ?thesis by (simp add: call_def Let_def statsLe_def)
  next
    case None
    show ?thesis
    proof (cases "map_of (loadingPromises (manager w)) (cacheKey (destructure r))")
      case (Some pid)
      then show ?thesis using None by (simp add: call_def Let_def statsLe_def)
    next
      case nl: None
      let ?w2 = "?w1\<lparr>manager := (manager ?w1)\<lparr>loadingPromises :=
          AList.update (cacheKey (destructure r)) (fresh w) (loadingPromises (manager ?w1))\<rparr>,
          fresh := fresh w + 1\<rparr>"
      have b: "stats (manager ?w2) = stats (manager ?w1)" by simp
      have "snd (call rnd r w) = loadStep rnd (fresh w)
          \<lparr>t_key = cacheKey (destructure r), t_params = destructure r, t_waiting = [], t_rest = []\<rparr>
          (buildFallbackPaths (destructure r)) ?w2"
        using None nl by (simp add: call_def Let_def)
      moreover have "statsLe (stats (manager ?w1)) (stats (manager (loadStep rnd (fresh w)
          \<lparr>t_key = cacheKey (destructure r), t_params = destructure r, t_waiting = [], t_rest = []\<rparr>
          (buildFallbackPaths (destructure r)) ?w2)))"
        using loadStep_stats [of ?w2] unfolding b .
      ultimately show ?thesis
        using a by (simp only: statsLe_trans [OF a])
    qed
  qed
qed

lemma step_stats: "statsLe (stats (manager w)) (stats (manager (step e w)))"
  by (cases e) (simp_all add: call_stats settle_stats clearCache_def)

lemma run_stats: "statsLe (stats (manager w)) (stats (manager (fold step evs w)))"
proof (induction evs arbitrary: w)
  case Nil
  then show ?case by simp
next
  case (Cons e evs)
  show ?case using step_stats [of w e] Cons [of "step e w"] by (auto intro: statsLe_trans)
qed

text \<open>
  C8 (amended). No counter ever decreases: not over a sequence of \<open>get\<close> and
  \<open>clearCache\<close> calls each run to its end, and not over a run of overlapping calls,
  settlements and clears. \<open>clearCache\<close> leaves the counters as they are: nothing resets them.
\<close>

theorem stats_never_decrease:
  "requested (stats this) \<le> requested (stats (performAll cs this))
   \<and> loaded (stats this) \<le> loaded (stats (performAll cs this))
   \<and> failed (stats this) \<le> failed (stats (performAll cs this))
   \<and> cached (stats this) \<le> cached (stats (performAll cs this))
   \<and> fallbacks (stats this) \<le> fallbacks (stats (performAll cs this))
   \<and> stats (clearCache this) = stats this
   \<and> requested (stats (manager w)) \<le> requested (stats (manager (fold step evs w)))
   \<and> loaded (stats (manager w)) \<le> loaded (stats (manager (fold step evs w)))
   \<and> failed (stats (manager w)) \<le> failed (stats (manager (fold step evs w)))
   \<and> cached (stats (manager w)) \<le> cached (stats (manager (fold step evs w)))
   \<and> fallbacks (stats (manager w)) \<le> fallbacks (stats (manager (fold step evs w)))"
  using performAll_stats_mono [of this cs] run_stats [of w evs]
  by (simp add: clearCache_def statsLe_def)

text \<open>
  C8 as stated fails: after one \<open>get\<close> and a \<open>clearCache\<close>, \<open>requested\<close> and \<open>loaded\<close> are
  still 1.
\<close>

theorem clearCache_keeps_stats:
  "requested (stats (clearCache (performAll
      [Get (checkFileExists everythingExists) 7 requestA] constructor))) = 1
   \<and> loaded (stats (clearCache (performAll
      [Get (checkFileExists everythingExists) 7 requestA] constructor))) = 1"
  by (simp add: performAll_def getA_first clearCache_def)

text \<open>
  C10. After every sequence of \<open>get\<close> and \<open>clearCache\<close> calls on a new manager, and after
  every run of overlapping calls, settlements and clears, the \<open>failed\<close> field of the
  snapshot of \<open>getStats\<close> is 0.
\<close>

theorem failed_counter_stays_zero:
  "failed (getStats (performAll cs constructor)) = 0
   \<and> failed (getStats (manager (fold step evs world0))) = 0"
  using performAll_stats_mono [of constructor cs] run_stats [of world0 evs]
  by (simp add: getStats_def constructor_def world0_def stats.defs statsLe_def)

section \<open>Fulfilment and the cache over runs of overlapping calls\<close>






lemma linked_stats [simp]:
  "linked (w\<lparr>manager := (manager w)\<lparr>stats := s\<rparr>\<rparr>) = linked w"
  by (simp add: linked_def)


















lemma settle_fulfilled:
  assumes r: "map_of (running w) pid = Some t"
    and s: "settled (settle rnd pid outcome w) = settled w @ [(pid, Inr url)]"
  shows "map_of (cache (manager (settle rnd pid outcome w))) (t_key t) = Some url"
proof (cases "outcome = Resolves True")
  case True
  then have e: "settle rnd pid outcome w = finish pid t (Inr (t_waiting t))
      (w\<lparr>manager := (manager w)\<lparr>stats :=
          (stats (manager w))\<lparr>loaded := loaded (stats (manager w)) + 1\<rparr>\<rparr>\<rparr>)"
    using r by (simp add: settle_def Let_def)
  have "url = t_waiting t" using s unfolding e by (simp add: finish_rest)
  then show ?thesis unfolding e by (simp add: finish_cache)
next
  case False
  then have e: "settle rnd pid outcome w = loadStep rnd pid t (t_rest t) w"
    using r by (auto simp: settle_def split: probe.splits bool.splits)
  show ?thesis
  proof (cases "t_rest t")
    case Nil
    let ?res = "generateFallbackLetterSVG rnd (char (t_params t))
          (if charCase (t_params t) \<noteq> [] then style (t_params t) @ js ''-'' @ charCase (t_params t)
           else style (t_params t))"
    let ?w' = "w\<lparr>manager := (manager w)\<lparr>stats :=
          (stats (manager w))\<lparr>fallbacks := fallbacks (stats (manager w)) + 1\<rparr>\<rparr>\<rparr>"
    have e': "settle rnd pid outcome w = finish pid t ?res ?w'"
      unfolding e using Nil by (simp add: loadStep_def Let_def)
    have "?res = Inr url" using s unfolding e' by (simp add: finish_rest)
    then show ?thesis unfolding e' by (simp add: finish_cache)
  next
    case (Cons path rest)
    then have "settled (settle rnd pid outcome w) = settled w"
      unfolding e by (simp add: loadStep_def)
    then show ?thesis using s by simp
  qed
qed

lemma call_cache: "cache (manager (snd (call rnd r w))) = cache (manager w)"
proof -
  obtain path rest where ps: "buildFallbackPaths (destructure r) = path # rest"
    using paths_Cons by blast
  show ?thesis
    by (simp add: call_def Let_def loadStep_def ps split: option.splits)
qed

lemma settle_cache:
  assumes c: "coalesced w" and k: "map_of (cache (manager w)) key = Some url"
  shows "map_of (cache (manager (settle rnd pid outcome w))) key = Some url"
proof (cases "map_of (running w) pid")
  case None
  then show ?thesis using k by (simp add: settle_def)
next
  case (Some t)
  from coalesced_running [OF c Some] have "map_of (cache (manager w)) (t_key t) = None" by blast
  then have ne: "key \<noteq> t_key t" using k by auto
  show ?thesis
  proof (cases "outcome = Resolves True")
    case True
    then show ?thesis using Some ne k
      by (simp add: settle_def Let_def finish_cache)
  next
    case False
    then have e: "settle rnd pid outcome w = loadStep rnd pid t (t_rest t) w"
      using Some by (auto simp: settle_def split: probe.splits bool.splits)
    show ?thesis unfolding e using ne k
      by (cases "t_rest t") (simp_all add: loadStep_def Let_def finish_cache split: sum.splits)
  qed
qed

lemma run_cache:
  assumes "coalesced w" "map_of (cache (manager w)) key = Some url" "Clear \<notin> set evs"
  shows "coalesced (fold step evs w) \<and> map_of (cache (manager (fold step evs w))) key = Some url"
  using assms
proof (induction evs arbitrary: w)
  case Nil
  then show ?case by simp
next
  case (Cons e evs)
  have ne: "e \<noteq> Clear" and nc: "Clear \<notin> set evs" using Cons.prems(3) by auto
  have c: "coalesced (step e w)" using step_coalesced [OF Cons.prems(1)] ne by simp
  have k: "map_of (cache (manager (step e w))) key = Some url"
  proof (cases e)
    case (Call rnd r)
    then show ?thesis using Cons.prems(2) by (simp add: call_cache)
  next
    case (Settle rnd pid outcome)
    then show ?thesis using settle_cache [OF Cons.prems(1,2)] by simp
  next
    case Clear
    then show ?thesis using ne by simp
  qed
  show ?case using Cons.IH [OF c k nc] by simp
qed

lemma call_Now:
  assumes "fst (call rnd r w) = Now url"
  shows "map_of (cache (manager w)) (cacheKey (destructure r)) = Some url"
proof -
  obtain path rest where ps: "buildFallbackPaths (destructure r) = path # rest"
    using paths_Cons by blast
  show ?thesis
    using assms
    by (cases "map_of (cache (manager w)) (cacheKey (destructure r))";
        cases "map_of (loadingPromises (manager w)) (cacheKey (destructure r))")
       (simp_all add: call_def Let_def loadStep_def ps)
qed

lemma call_hit:
  assumes "map_of (cache (manager w)) (cacheKey (destructure r)) = Some url"
  shows "call rnd r w =
     (Now url,
      w\<lparr>manager := (manager w)\<lparr>stats := (stats (manager w))\<lparr>
           requested := requested (stats (manager w)) + 1,
           cached := cached (stats (manager w)) + 1\<rparr>\<rparr>\<rparr>)"
  using assms by (simp add: call_def Let_def)

text \<open>
  C3 (amended). Once a call \<open>get(r)\<close> has been fulfilled, the next call \<open>get(r)\<close>,
  whatever the network then answers, is fulfilled with the same URL, probes nothing, adds
  one to \<open>requested\<close> and to \<open>cached\<close> and leaves everything else, \<open>loaded\<close> included, as
  it was. For callers that joined a resolution in flight: in a run where \<open>clearCache\<close> is
  called only while nothing is in flight, from the moment the promise of an activation
  is fulfilled with a URL and until the next \<open>clearCache\<close>, every call of \<open>get\<close> with the
  key of that activation returns that URL at once, starts and probes nothing, and adds
  one to \<open>requested\<close> and to \<open>cached\<close> only; and so does every call of \<open>get(r)\<close> after one
  that returned a URL from the cache.
\<close>

theorem second_get_is_cache_hit:
  "(get chk rnd r this = (Fulfilled url, probed, this')
      \<longrightarrow> get chk' rnd' r this'
          = (Fulfilled url, [],
             this'\<lparr>stats := (stats this')\<lparr>requested := requested (stats this') + 1,
                                          cached := cached (stats this') + 1\<rparr>\<rparr>))
   \<and> (quietClears evs world0
      \<and> map_of (running (fold step evs world0)) pid = Some t
      \<and> settled (settle rnd pid outcome (fold step evs world0))
          = settled (fold step evs world0) @ [(pid, Inr url)]
      \<and> Clear \<notin> set evs'
      \<and> w = fold step evs' (settle rnd pid outcome (fold step evs world0))
      \<and> cacheKey (destructure r) = t_key t
      \<longrightarrow> call rnd' r w =
            (Now url,
             w\<lparr>manager := (manager w)\<lparr>stats := (stats (manager w))\<lparr>
                  requested := requested (stats (manager w)) + 1,
                  cached := cached (stats (manager w)) + 1\<rparr>\<rparr>\<rparr>))
   \<and> (quietClears evsB world0
      \<and> fst (call rndB r (fold step evsB world0)) = Now url
      \<and> Clear \<notin> set evsA
      \<and> wA = fold step evsA (snd (call rndB r (fold step evsB world0)))
      \<longrightarrow> call rnd' r wA =
            (Now url,
             wA\<lparr>manager := (manager wA)\<lparr>stats := (stats (manager wA))\<lparr>
                  requested := requested (stats (manager wA)) + 1,
                  cached := cached (stats (manager wA)) + 1\<rparr>\<rparr>\<rparr>))"
proof (intro conjI impI)
  assume a: "get chk rnd r this = (Fulfilled url, probed, this')"
  have "map_of (cache this') (cacheKey (destructure r)) = Some url"
    using a
    by (auto simp: get_def Let_def update_conv' split: option.splits prod.splits sum.splits)
  then show "get chk' rnd' r this'
          = (Fulfilled url, [],
             this'\<lparr>stats := (stats this')\<lparr>requested := requested (stats this') + 1,
                                          cached := cached (stats this') + 1\<rparr>\<rparr>)"
    by (simp add: get_def Let_def)
next
  let ?w1 = "fold step evs world0"
  let ?w2 = "settle rnd pid outcome ?w1"
  assume a: "quietClears evs world0
      \<and> map_of (running ?w1) pid = Some t
      \<and> settled ?w2 = settled ?w1 @ [(pid, Inr url)]
      \<and> Clear \<notin> set evs'
      \<and> w = fold step evs' ?w2
      \<and> cacheKey (destructure r) = t_key t"
  then have q: "quietClears evs world0" and r: "map_of (running ?w1) pid = Some t"
    and s: "settled ?w2 = settled ?w1 @ [(pid, Inr url)]" and nc: "Clear \<notin> set evs'"
    and w: "w = fold step evs' ?w2" and k: "cacheKey (destructure r) = t_key t"
    by blast+
  have c1: "coalesced ?w1" by (rule run_coalesced [OF coalesced0 q])
  have c2: "coalesced ?w2" by (rule settle_coalesced [OF c1])
  have h2: "map_of (cache (manager ?w2)) (t_key t) = Some url"
    by (rule settle_fulfilled [OF r s])
  have "map_of (cache (manager w)) (cacheKey (destructure r)) = Some url"
    unfolding w k using run_cache [OF c2 h2 nc] by blast
  then show "call rnd' r w =
            (Now url,
             w\<lparr>manager := (manager w)\<lparr>stats := (stats (manager w))\<lparr>
                  requested := requested (stats (manager w)) + 1,
                  cached := cached (stats (manager w)) + 1\<rparr>\<rparr>\<rparr>)"
    by (rule call_hit)
next
  let ?w0 = "fold step evsB world0"
  assume a: "quietClears evsB world0
      \<and> fst (call rndB r ?w0) = Now url
      \<and> Clear \<notin> set evsA
      \<and> wA = fold step evsA (snd (call rndB r ?w0))"
  then have q: "quietClears evsB world0" and n: "fst (call rndB r ?w0) = Now url"
    and nc: "Clear \<notin> set evsA" and w: "wA = fold step evsA (snd (call rndB r ?w0))"
    by blast+
  have c0: "coalesced ?w0" by (rule run_coalesced [OF coalesced0 q])
  have c1: "coalesced (snd (call rndB r ?w0))" by (rule call_coalesced [OF c0])
  have h0: "map_of (cache (manager ?w0)) (cacheKey (destructure r)) = Some url"
    by (rule call_Now [OF n])
  have h1: "map_of (cache (manager (snd (call rndB r ?w0)))) (cacheKey (destructure r)) = Some url"
    unfolding call_cache by (rule h0)
  have "map_of (cache (manager wA)) (cacheKey (destructure r)) = Some url"
    unfolding w using run_cache [OF c1 h1 nc] by blast
  then show "call rnd' r wA =
            (Now url,
             wA\<lparr>manager := (manager wA)\<lparr>stats := (stats (manager wA))\<lparr>
                  requested := requested (stats (manager wA)) + 1,
                  cached := cached (stats (manager wA)) + 1\<rparr>\<rparr>\<rparr>)"
    by (rule call_hit)
qed

lemma settleA_first:
  "settle 7 0 (Resolves True) (fold step [Call 7 requestA] world0) =
     \<lparr>manager = \<lparr>cache = [(js ''A_sans_upper_NYC_01'',
                   js ''assets/Alphabet/cities/NYC/Alphabet/A/sans-upper/01.jpg'')],
         loadingPromises = [],
         stats = \<lparr>requested = 1, loaded = 1, failed = 0, cached = 0, fallbacks = 0\<rparr>\<rparr>,
      running = [],
      settled = [(0, Inr (js ''assets/Alphabet/cities/NYC/Alphabet/A/sans-upper/01.jpg''))],
      probes = [(0, js ''assets/Alphabet/cities/NYC/Alphabet/A/sans-upper/01.jpg'')],
      fresh = 1\<rparr>"
proof -
  have f: "fold step [Call 7 requestA] world0 = step (Call 7 requestA) world0" by simp
  show ?thesis unfolding f callA_first
    by (simp add: settle_def Let_def finish_def)
qed

theorem second_get_is_cache_hit_witness:
  "get (checkFileExists everythingExists) 7 requestA constructor
     = (Fulfilled (js ''assets/Alphabet/cities/NYC/Alphabet/A/sans-upper/01.jpg''),
        [js ''assets/Alphabet/cities/NYC/Alphabet/A/sans-upper/01.jpg''],
        \<lparr>cache = [(js ''A_sans_upper_NYC_01'',
                   js ''assets/Alphabet/cities/NYC/Alphabet/A/sans-upper/01.jpg'')],
         loadingPromises = [],
         stats = \<lparr>requested = 1, loaded = 1, failed = 0, cached = 0, fallbacks = 0\<rparr>\<rparr>)
   \<and> get (checkFileExists nothingExists) 8 requestA
        \<lparr>cache = [(js ''A_sans_upper_NYC_01'',
                   js ''assets/Alphabet/cities/NYC/Alphabet/A/sans-upper/01.jpg'')],
         loadingPromises = [],
         stats = \<lparr>requested = 1, loaded = 1, failed = 0, cached = 0, fallbacks = 0\<rparr>\<rparr>
     = (Fulfilled (js ''assets/Alphabet/cities/NYC/Alphabet/A/sans-upper/01.jpg''), [],
        \<lparr>cache = [(js ''A_sans_upper_NYC_01'',
                   js ''assets/Alphabet/cities/NYC/Alphabet/A/sans-upper/01.jpg'')],
         loadingPromises = [],
         stats = \<lparr>requested = 2, loaded = 1, failed = 0, cached = 1, fallbacks = 0\<rparr>\<rparr>)
   \<and> quietClears [Call 7 requestA] world0
   \<and> map_of (running (fold step [Call 7 requestA] world0)) 0 =
       Some \<lparr>t_key = js ''A_sans_upper_NYC_01'', t_params = destructure requestA,
          t_waiting = js ''assets/Alphabet/cities/NYC/Alphabet/A/sans-upper/01.jpg'',
          t_rest = [js ''assets/Alphabet/cities/NYC/fallback/sans-upper/01.jpg'',
            js ''assets/Alphabet/cities/NYC/Alphabet/A/sans-upper/02.jpg'',
            js ''assets/Alphabet/cities/NYC/Alphabet/A/sans-upper/03.jpg'',
            js ''assets/Alphabet/cities/NYC/Alphabet/A/sans-upper/04.jpg'',
            js ''assets/Alphabet/cities/NYC/Alphabet/A/sans-upper/05.jpg'',
            js ''assets/missing.png'']\<rparr>
   \<and> settled (settle 7 0 (Resolves True) (fold step [Call 7 requestA] world0))
       = settled (fold step [Call 7 requestA] world0)
           @ [(0, Inr (js ''assets/Alphabet/cities/NYC/Alphabet/A/sans-upper/01.jpg''))]
   \<and> Clear \<notin> set ([] :: event list)
   \<and> cacheKey (destructure requestA) = js ''A_sans_upper_NYC_01''
   \<and> call 8 requestA (settle 7 0 (Resolves True) (fold step [Call 7 requestA] world0))
       = (Now (js ''assets/Alphabet/cities/NYC/Alphabet/A/sans-upper/01.jpg''),
          \<lparr>manager = \<lparr>cache = [(js ''A_sans_upper_NYC_01'',
                   js ''assets/Alphabet/cities/NYC/Alphabet/A/sans-upper/01.jpg'')],
             loadingPromises = [],
             stats = \<lparr>requested = 2, loaded = 1, failed = 0, cached = 1, fallbacks = 0\<rparr>\<rparr>,
           running = [],
           settled = [(0, Inr (js ''assets/Alphabet/cities/NYC/Alphabet/A/sans-upper/01.jpg''))],
           probes = [(0, js ''assets/Alphabet/cities/NYC/Alphabet/A/sans-upper/01.jpg'')],
           fresh = 1\<rparr>)
   \<and> quietClears [Call 7 requestA, Settle 7 0 (Resolves True)] world0
   \<and> fst (call 8 requestA (fold step [Call 7 requestA, Settle 7 0 (Resolves True)] world0))
       = Now (js ''assets/Alphabet/cities/NYC/Alphabet/A/sans-upper/01.jpg'')
   \<and> fst (call 9 requestA
          (snd (call 8 requestA (fold step [Call 7 requestA, Settle 7 0 (Resolves True)] world0))))
       = Now (js ''assets/Alphabet/cities/NYC/Alphabet/A/sans-upper/01.jpg'')
   \<and> stats (manager (snd (call 9 requestA
          (snd (call 8 requestA (fold step [Call 7 requestA, Settle 7 0 (Resolves True)] world0))))))
       = \<lparr>requested = 3, loaded = 1, failed = 0, cached = 2, fallbacks = 0\<rparr>"
proof -
  let ?url = "js ''assets/Alphabet/cities/NYC/Alphabet/A/sans-upper/01.jpg''"
  let ?t = "\<lparr>t_key = js ''A_sans_upper_NYC_01'', t_params = destructure requestA,
          t_waiting = js ''assets/Alphabet/cities/NYC/Alphabet/A/sans-upper/01.jpg'',
          t_rest = [js ''assets/Alphabet/cities/NYC/fallback/sans-upper/01.jpg'',
            js ''assets/Alphabet/cities/NYC/Alphabet/A/sans-upper/02.jpg'',
            js ''assets/Alphabet/cities/NYC/Alphabet/A/sans-upper/03.jpg'',
            js ''assets/Alphabet/cities/NYC/Alphabet/A/sans-upper/04.jpg'',
            js ''assets/Alphabet/cities/NYC/Alphabet/A/sans-upper/05.jpg'',
            js ''assets/missing.png'']\<rparr>"
  let ?w1 = "fold step [Call 7 requestA] world0"
  let ?w2 = "settle 7 0 (Resolves True) ?w1"
  have q: "quietClears [Call 7 requestA] world0" by simp
  have f: "?w1 = step (Call 7 requestA) world0" by simp
  have r: "map_of (running ?w1) 0 = Some ?t" unfolding f callA_first by simp
  have s: "settled ?w2 = settled ?w1 @ [(0, Inr ?url)]"
    unfolding settleA_first unfolding f callA_first by simp
  have n: "Clear \<notin> set ([] :: event list)" by simp
  have w: "?w2 = fold step [] ?w2" by simp
  have k: "cacheKey (destructure requestA) = t_key ?t" by (simp add: keyA)
  note t = second_get_is_cache_hit [where chk = "checkFileExists everythingExists" and rnd = 7
      and r = requestA and this = constructor and url = ?url
      and chk' = "checkFileExists nothingExists" and rnd' = 8 and evs = "[Call 7 requestA]"
      and pid = 0 and t = ?t and outcome = "Resolves True" and evs' = "[]" and w = ?w2]
  have t1: "get (checkFileExists nothingExists) 8 requestA
        \<lparr>cache = [(js ''A_sans_upper_NYC_01'', ?url)],
         loadingPromises = [],
         stats = \<lparr>requested = 1, loaded = 1, failed = 0, cached = 0, fallbacks = 0\<rparr>\<rparr>
     = (Fulfilled ?url, [],
        \<lparr>cache = [(js ''A_sans_upper_NYC_01'', ?url)],
         loadingPromises = [],
         stats = \<lparr>requested = 2, loaded = 1, failed = 0, cached = 1, fallbacks = 0\<rparr>\<rparr>)"
    using t [THEN conjunct1, rule_format, OF getA_first] by simp
  have t2: "call 8 requestA ?w2 =
            (Now ?url,
             ?w2\<lparr>manager := (manager ?w2)\<lparr>stats := (stats (manager ?w2))\<lparr>
                  requested := requested (stats (manager ?w2)) + 1,
                  cached := cached (stats (manager ?w2)) + 1\<rparr>\<rparr>\<rparr>)"
    using t [THEN conjunct2, THEN conjunct1, rule_format] q r s n w k by blast
  have t2': "call 8 requestA ?w2
       = (Now ?url,
          \<lparr>manager = \<lparr>cache = [(js ''A_sans_upper_NYC_01'', ?url)],
             loadingPromises = [],
             stats = \<lparr>requested = 2, loaded = 1, failed = 0, cached = 1, fallbacks = 0\<rparr>\<rparr>,
           running = [],
           settled = [(0, Inr ?url)],
           probes = [(0, ?url)],
           fresh = 1\<rparr>)"
    unfolding t2 unfolding settleA_first by simp
  let ?evsB = "[Call 7 requestA, Settle 7 0 (Resolves True)]"
  let ?w3 = "snd (call 8 requestA (fold step ?evsB world0))"
  have f0: "fold step ?evsB world0 = ?w2" by simp
  have q0: "quietClears ?evsB world0" by simp
  have n0: "fst (call 8 requestA (fold step ?evsB world0)) = Now ?url"
    unfolding f0 t2' by simp
  have w3: "?w3 = fold step [] ?w3" by simp
  have t3: "call 9 requestA ?w3 =
            (Now ?url,
             ?w3\<lparr>manager := (manager ?w3)\<lparr>stats := (stats (manager ?w3))\<lparr>
                  requested := requested (stats (manager ?w3)) + 1,
                  cached := cached (stats (manager ?w3)) + 1\<rparr>\<rparr>\<rparr>)"
    using second_get_is_cache_hit [where r = requestA and rnd' = 9 and evsB = ?evsB
        and rndB = 8 and url = ?url and evsA = "[]" and wA = ?w3,
        THEN conjunct2, THEN conjunct2, rule_format] q0 n0 n w3 by blast
  have n3: "fst (call 9 requestA ?w3) = Now ?url" unfolding t3 by simp
  have s3: "stats (manager (snd (call 9 requestA ?w3)))
       = \<lparr>requested = 3, loaded = 1, failed = 0, cached = 2, fallbacks = 0\<rparr>"
    unfolding t3 unfolding f0 t2' by simp
  show ?thesis
    using getA_first t1 q r s n keyA t2' q0 n0 n3 s3 by (intro conjI)
qed

text \<open>
  C3 as stated fails: a first call that was rejected has cached nothing. For the
  character U+D800 and a network where nothing exists the second call probes the six
  candidates again, is rejected again, and \<open>cached\<close> stays 0.
\<close>

theorem second_get_after_rejection_probes_again:
  "fst (get (checkFileExists nothingExists) 7 requestLoneSurrogate constructor)
     = Rejected URIError
   \<and> get (checkFileExists nothingExists) 8 requestLoneSurrogate
       (snd (snd (get (checkFileExists nothingExists) 7 requestLoneSurrogate constructor)))
     = (Rejected URIError, buildFallbackPaths (destructure requestLoneSurrogate),
        \<lparr>cache = [], loadingPromises = [],
         stats = \<lparr>requested = 2, loaded = 0, failed = 0, cached = 0, fallbacks = 2\<rparr>\<rparr>)
   \<and> length (buildFallbackPaths (destructure requestLoneSurrogate)) = 6"
proof -
  let ?p = "destructure requestLoneSurrogate"
  have n: "\<not> isWellFormed (char ?p)"
    by (simp add: destructure_def requestLoneSurrogate_def isLeadSurrogate_def)
  have f: "\<forall>q \<in> set (buildFallbackPaths ?p). checkFileExists nothingExists q \<noteq> Resolves True"
    by (simp add: checkFileExists_def nothingExists_def)
  have g1: "get (checkFileExists nothingExists) 7 requestLoneSurrogate constructor
     = (Rejected URIError, buildFallbackPaths ?p,
        \<lparr>cache = [], loadingPromises = [],
         stats = \<lparr>requested = 1, loaded = 0, failed = 0, cached = 0, fallbacks = 1\<rparr>\<rparr>)"
    by (simp add: get_def Let_def constructor_def load_all_fail [OF f] generate_not_wf [OF n])
  have g2: "get (checkFileExists nothingExists) 8 requestLoneSurrogate
        \<lparr>cache = [], loadingPromises = [],
         stats = \<lparr>requested = 1, loaded = 0, failed = 0, cached = 0, fallbacks = 1\<rparr>\<rparr>
     = (Rejected URIError, buildFallbackPaths ?p,
        \<lparr>cache = [], loadingPromises = [],
         stats = \<lparr>requested = 2, loaded = 0, failed = 0, cached = 0, fallbacks = 2\<rparr>\<rparr>)"
    by (simp add: get_def Let_def load_all_fail [OF f] generate_not_wf [OF n])
  have l: "length (buildFallbackPaths ?p) = 6"
    by (simp add: buildFallbackPaths_def Let_def length_altVariants destructure_def
          requestLoneSurrogate_def padStart_def js_def
          isLeadSurrogate_def isAsciiDigit_def isAsciiLower_def isAsciiUpper_def)
  show ?thesis unfolding g1 using g2 l by simp
qed

section \<open>Properties of the letter database\<close>

lemma pathExists_format [simp]:
  "decorativePathFormat (snd (snd (pathExists net path this))) = decorativePathFormat this"
  "assetsDetected (snd (snd (pathExists net path this))) = assetsDetected this"
  by (auto simp: pathExists_def split: option.splits image_event.splits)

lemma firstExisting_format [simp]:
  "decorativePathFormat (snd (snd (firstExisting net paths this))) = decorativePathFormat this
   \<and> assetsDetected (snd (snd (firstExisting net paths this))) = assetsDetected this"
proof (induction paths arbitrary: this)
  case Nil
  then show ?case by simp
next
  case (Cons path paths)
  obtain e pr t' where p: "pathExists net path this = (e, pr, t')"
    by (cases "pathExists net path this") auto
  have f: "decorativePathFormat t' = decorativePathFormat this"
          "assetsDetected t' = assetsDetected this"
    using pathExists_format [of net path this] p by simp_all
  show ?case using Cons [of t'] p f by (auto split: prod.splits)
qed






















lemma caseType_cases:
  "(if ch = toUpperCase ch then js ''upper'' else js ''lower'') = js ''upper''
   \<or> (if ch = toUpperCase ch then js ''upper'' else js ''lower'') = js ''lower''"
  by simp














































end
